theory Spec2Isabelle
  imports Main "HOL-Library.Word"
begin

section \<open>Data model\<close>

text \<open>
  \<open>uint64_t\<close> (the bucket count \<open>size_\<close>, the entry counter \<open>count_\<close>, a hash value)
  is a 64-bit word: \<open>+\<close>, \<open>-\<close> and \<open>*\<close> wrap around, \<open>mod\<close> is the unsigned remainder.
\<close>

type_synonym u64 = "64 word"

text \<open>
  What C++ leaves undefined is a value of the model: \<open>hash_(key) % size_\<close> with
  \<open>size_ = 0\<close>, and \<open>data_[h]\<close> with \<open>h\<close> beyond the vector.
\<close>

datatype fault = DivByZero | OutOfRange

text \<open>
  \<open>Map::Bucket::Node\<close>: a key, a value, and the owned \<open>next\<close> node. A chain of nodes
  owned one by the other is a list of nodes, \<open>next = nullptr\<close> being the end of the list,
  and a bucket is the chain its \<open>head\<close> owns (\<open>head = nullptr\<close> is \<open>[]\<close>). The locks
  \<open>m\<close> have no sequential content and are left out of the functions of one call
  running alone; the section on interleaved calls has them.
\<close>

record ('k, 'v) node =
  key :: 'k
  val :: 'v

type_synonym ('k, 'v) chain = "('k, 'v) node list"

text \<open>
  The table of \<open>unnamed/part_000\<close> (the \<open>Map\<close> with a counter and a \<open>replace\<close> flag).
  The hash \<open>hash_\<close> is an object of the template parameter \<open>Hash\<close>, default-constructed
  in every table; it is the parameter \<open>H\<close> of the functions below. The fields
  \<open>size_\<close>, \<open>count_\<close> and \<open>data_\<close> are \<open>size_m\<close>, \<open>count_m\<close> and \<open>data_m\<close> (a name
  cannot end with an underscore here).
\<close>

record ('k, 'v) Map_state =
  size_m :: u64
  count_m :: u64
  data_m :: "('k, 'v) chain list"

section \<open>Map (unnamed/part\_000)\<close>

text \<open>\<open>Map(uint64_t size) : size_(size), data_(size_)\<close>, with \<open>count_ = 0\<close>.\<close>

definition Map_init :: "u64 \<Rightarrow> ('k, 'v) Map_state" where
  "Map_init sz = \<lparr>size_m = sz, count_m = 0, data_m = replicate (unat sz) []\<rparr>"

text \<open>\<open>h = hash_(key) % size_\<close> and the access \<open>data_[h]\<close>.\<close>

definition Map_bucket :: "('k \<Rightarrow> u64) \<Rightarrow> ('k, 'v) Map_state \<Rightarrow> 'k \<Rightarrow> fault + nat" where
  "Map_bucket H m k =
     (if size_m m = 0 then Inl DivByZero
      else let h = unat (H k mod size_m m)
           in if h < length (data_m m) then Inr h else Inl OutOfRange)"

text \<open>
  The walk of \<open>operator[]\<close>: an empty chain gives \<open>nullopt\<close>, a node with the key gives
  its value, otherwise the walk goes on from \<open>next\<close>.
\<close>

fun chain_find :: "'k \<Rightarrow> ('k, 'v) chain \<Rightarrow> 'v option" where
  "chain_find k [] = None"
| "chain_find k (n # ns) = (if key n = k then Some (val n) else chain_find k ns)"

definition Map_Find :: "('k \<Rightarrow> u64) \<Rightarrow> 'k \<Rightarrow> ('k, 'v) Map_state \<Rightarrow> fault + 'v option" where
  "Map_Find H k m =
     (case Map_bucket H m k of Inl f \<Rightarrow> Inl f
      | Inr h \<Rightarrow> Inr (chain_find k (data_m m ! h)))"

fun chain_contains :: "'k \<Rightarrow> ('k, 'v) chain \<Rightarrow> bool" where
  "chain_contains k [] = False"
| "chain_contains k (n # ns) = (if key n = k then True else chain_contains k ns)"

definition Map_Contains :: "('k \<Rightarrow> u64) \<Rightarrow> 'k \<Rightarrow> ('k, 'v) Map_state \<Rightarrow> fault + bool" where
  "Map_Contains H k m =
     (case Map_bucket H m k of Inl f \<Rightarrow> Inl f
      | Inr h \<Rightarrow> Inr (chain_contains k (data_m m ! h)))"

text \<open>
  \<open>Insert(const Key& key, Val&& val, bool replace)\<close>. Its first statement builds the
  new node from \<open>key\<close> and \<open>std::forward<Val>(val)\<close>; the hash and every comparison of
  the walk read the parameter \<open>key\<close> after that. When the value argument is the key
  object itself, moved (\<open>Insert(s, std::move(s))\<close> on a \<open>Map<std::string, std::string>\<close>),
  building the node empties the object that \<open>key\<close> refers to. The embedding keeps the
  two apart: \<open>node_key\<close> is the key the node receives, \<open>k\<close> is what the parameter
  \<open>key\<close> holds once the node is built. They are the same whenever the value argument
  is another object than the key.

  The result of the walk is the chain afterwards, the value \<open>Insert\<close> returns, and
  whether \<open>++count_\<close> runs. At the end of the chain (or on an empty bucket) the new node
  is linked; on a node with the key, \<open>replace\<close> decides between \<open>return false\<close> and
  \<open>Node::Swap\<close>, which puts the new value into the node.
\<close>

fun chain_insert ::
  "'k \<Rightarrow> 'k \<Rightarrow> 'v \<Rightarrow> bool \<Rightarrow> ('k, 'v) chain \<Rightarrow> ('k, 'v) chain \<times> bool \<times> bool" where
  "chain_insert node_key k v replace [] = ([\<lparr>key = node_key, val = v\<rparr>], True, True)"
| "chain_insert node_key k v replace (n # ns) =
     (if key n = k then
        (if \<not> replace then (n # ns, False, False)
         else (n\<lparr>val := v\<rparr> # ns, True, False))
      else (case chain_insert node_key k v replace ns of
              (ns', r, c) \<Rightarrow> (n # ns', r, c)))"

definition Map_Insert ::
  "('k \<Rightarrow> u64) \<Rightarrow> 'k \<Rightarrow> 'k \<Rightarrow> 'v \<Rightarrow> bool \<Rightarrow> ('k, 'v) Map_state
     \<Rightarrow> fault + bool \<times> ('k, 'v) Map_state" where
  "Map_Insert H node_key k v replace m =
     (case Map_bucket H m k of Inl f \<Rightarrow> Inl f
      | Inr h \<Rightarrow>
          (case chain_insert node_key k v replace (data_m m ! h) of
             (c, r, inc) \<Rightarrow>
               Inr (r, m\<lparr>data_m := (data_m m)[h := c],
                         count_m := (if inc then count_m m + 1 else count_m m)\<rparr>)))"

text \<open>
  The walk of \<open>Erase\<close>: the first node with the key is unlinked (its successor takes
  its place) and \<open>--count_\<close> runs; the result is the chain and the returned value.
\<close>

fun chain_erase :: "'k \<Rightarrow> ('k, 'v) chain \<Rightarrow> ('k, 'v) chain \<times> bool" where
  "chain_erase k [] = ([], False)"
| "chain_erase k (n # ns) =
     (if key n = k then (ns, True)
      else (case chain_erase k ns of (ns', r) \<Rightarrow> (n # ns', r)))"

definition Map_Erase ::
  "('k \<Rightarrow> u64) \<Rightarrow> 'k \<Rightarrow> ('k, 'v) Map_state \<Rightarrow> fault + bool \<times> ('k, 'v) Map_state" where
  "Map_Erase H k m =
     (case Map_bucket H m k of Inl f \<Rightarrow> Inl f
      | Inr h \<Rightarrow>
          (case chain_erase k (data_m m ! h) of
             (c, r) \<Rightarrow>
               Inr (r, m\<lparr>data_m := (data_m m)[h := c],
                         count_m := (if r then count_m m - 1 else count_m m)\<rparr>)))"

definition Map_Size :: "('k, 'v) Map_state \<Rightarrow> u64" where
  "Map_Size m = count_m m"

text \<open>
  \<open>FastInsert\<close>, \<open>Resize\<close> and the move constructor and assignment are not embedded.
  They are members of a class template that no test instantiates, and they are ill-formed
  once instantiated: the walk of \<open>FastInsert\<close> initialises \<open>Node* next\<close> from the
  \<open>std::unique_ptr<Node>\<close> \<open>prev->next\<close>, and the move operations copy the
  \<open>std::atomic\<close> counter (\<open>count_ = other.count_\<close>), whose copy operations are deleted.
  \<open>Resize\<close> calls both, so no program that calls \<open>Resize\<close>, \<open>Resize(0)\<close> included,
  can be built.
\<close>

section \<open>Set (set.h)\<close>

text \<open>
  \<open>Set::Bucket::Node\<close> holds one \<open>value\<close> and the owned \<open>next\<close> node: a chain is the
  list of its values. The fields of \<open>Set\<close> are \<open>size_s\<close>, \<open>count_s\<close> and \<open>data_s\<close>.
\<close>

record 'a Set_state =
  size_s :: u64
  count_s :: u64
  data_s :: "'a list list"

definition Set_init :: "u64 \<Rightarrow> 'a Set_state" where
  "Set_init sz = \<lparr>size_s = sz, count_s = 0, data_s = replicate (unat sz) []\<rparr>"

definition Set_bucket :: "('a \<Rightarrow> u64) \<Rightarrow> 'a Set_state \<Rightarrow> 'a \<Rightarrow> fault + nat" where
  "Set_bucket H s x =
     (if size_s s = 0 then Inl DivByZero
      else let h = unat (H x mod size_s s)
           in if h < length (data_s s) then Inr h else Inl OutOfRange)"

fun set_chain_contains :: "'a \<Rightarrow> 'a list \<Rightarrow> bool" where
  "set_chain_contains x [] = False"
| "set_chain_contains x (n # ns) = (if n = x then True else set_chain_contains x ns)"

definition Set_Contains :: "('a \<Rightarrow> u64) \<Rightarrow> 'a \<Rightarrow> 'a Set_state \<Rightarrow> fault + bool" where
  "Set_Contains H x s =
     (case Set_bucket H s x of Inl f \<Rightarrow> Inl f
      | Inr h \<Rightarrow> Inr (set_chain_contains x (data_s s ! h)))"

text \<open>
  \<open>Set::Insert(Val&& value)\<close>, a function returning \<open>void\<close>. Its first statement
  builds the new node from \<open>std::forward<Val>(value)\<close>; the hash and every comparison
  of the walk read the parameter \<open>value\<close> after that. The embedding keeps the two
  apart: \<open>node_value\<close> is the argument as the node receives it, \<open>value\<close> is what the
  parameter holds once the node is built. They are the same when the argument is only
  copied (an lvalue, a \<open>const\<close> object, a string literal); an rvalue \<open>std::string\<close> is
  moved into the node and left empty.

  On a node equal to \<open>value\<close> the walk returns, at the end of the chain it links the
  new node. The result is the chain and whether \<open>++count_\<close> runs.
\<close>

fun set_chain_insert :: "'a \<Rightarrow> 'a \<Rightarrow> 'a list \<Rightarrow> 'a list \<times> bool" where
  "set_chain_insert node_value value [] = ([node_value], True)"
| "set_chain_insert node_value value (n # ns) =
     (if n = value then (n # ns, False)
      else (case set_chain_insert node_value value ns of (ns', c) \<Rightarrow> (n # ns', c)))"

definition Set_Insert ::
  "('a \<Rightarrow> u64) \<Rightarrow> 'a \<Rightarrow> 'a \<Rightarrow> 'a Set_state \<Rightarrow> fault + unit \<times> 'a Set_state" where
  "Set_Insert H node_value value s =
     (case Set_bucket H s value of Inl f \<Rightarrow> Inl f
      | Inr h \<Rightarrow>
          (case set_chain_insert node_value value (data_s s ! h) of
             (c, inc) \<Rightarrow>
               Inr ((), s\<lparr>data_s := (data_s s)[h := c],
                          count_s := (if inc then count_s s + 1 else count_s s)\<rparr>)))"

fun set_chain_erase :: "'a \<Rightarrow> 'a list \<Rightarrow> 'a list \<times> bool" where
  "set_chain_erase x [] = ([], False)"
| "set_chain_erase x (n # ns) =
     (if n = x then (ns, True)
      else (case set_chain_erase x ns of (ns', r) \<Rightarrow> (n # ns', r)))"

definition Set_Erase ::
  "('a \<Rightarrow> u64) \<Rightarrow> 'a \<Rightarrow> 'a Set_state \<Rightarrow> fault + bool \<times> 'a Set_state" where
  "Set_Erase H x s =
     (case Set_bucket H s x of Inl f \<Rightarrow> Inl f
      | Inr h \<Rightarrow>
          (case set_chain_erase x (data_s s ! h) of
             (c, r) \<Rightarrow>
               Inr (r, s\<lparr>data_s := (data_s s)[h := c],
                         count_s := (if r then count_s s - 1 else count_s s)\<rparr>)))"

definition Set_Size :: "'a Set_state \<Rightarrow> u64" where
  "Set_Size s = count_s s"

text \<open>
  \<open>Set::FastInsert\<close>, \<open>Set::Resize\<close> and the move operations of \<open>Set\<close> are not
  embedded either: \<open>FastInsert\<close> has the same walk over \<open>std::unique_ptr\<close> as a raw
  pointer, the move assignment tests \<open>*this == other\<close> on a class without \<open>operator==\<close>
  and copies the \<open>std::atomic\<close> counter, and \<open>Resize\<close> passes two arguments to
  \<open>FastInsert(Value&&)\<close>.
\<close>

section \<open>The earlier Map (map.h)\<close>

text \<open>
  The table of \<open>map.h\<close> has the same nodes and buckets, no counter, and an \<open>Insert\<close>
  without a \<open>replace\<close> parameter that returns \<open>void\<close>. Its field \<open>coef_\<close> is never
  read or written and its lock \<open>m_\<close> has no sequential content; the fields \<open>size_\<close>
  and \<open>data_\<close> are \<open>size_l\<close> and \<open>data_l\<close>.
\<close>

record ('k, 'v) LegacyMap_state =
  size_l :: u64
  data_l :: "('k, 'v) chain list"

definition LegacyMap_init :: "u64 \<Rightarrow> ('k, 'v) LegacyMap_state" where
  "LegacyMap_init sz = \<lparr>size_l = sz, data_l = replicate (unat sz) []\<rparr>"

definition LegacyMap_bucket :: "('k \<Rightarrow> u64) \<Rightarrow> ('k, 'v) LegacyMap_state \<Rightarrow> 'k \<Rightarrow> fault + nat" where
  "LegacyMap_bucket H m k =
     (if size_l m = 0 then Inl DivByZero
      else let h = unat (H k mod size_l m)
           in if h < length (data_l m) then Inr h else Inl OutOfRange)"

fun legacy_chain_find :: "'k \<Rightarrow> ('k, 'v) chain \<Rightarrow> 'v option" where
  "legacy_chain_find k [] = None"
| "legacy_chain_find k (n # ns) = (if key n = k then Some (val n) else legacy_chain_find k ns)"

definition LegacyMap_Find ::
  "('k \<Rightarrow> u64) \<Rightarrow> 'k \<Rightarrow> ('k, 'v) LegacyMap_state \<Rightarrow> fault + 'v option" where
  "LegacyMap_Find H k m =
     (case LegacyMap_bucket H m k of Inl f \<Rightarrow> Inl f
      | Inr h \<Rightarrow> Inr (legacy_chain_find k (data_l m ! h)))"

fun legacy_chain_contains :: "'k \<Rightarrow> ('k, 'v) chain \<Rightarrow> bool" where
  "legacy_chain_contains k [] = False"
| "legacy_chain_contains k (n # ns) = (if key n = k then True else legacy_chain_contains k ns)"

definition LegacyMap_Contains ::
  "('k \<Rightarrow> u64) \<Rightarrow> 'k \<Rightarrow> ('k, 'v) LegacyMap_state \<Rightarrow> fault + bool" where
  "LegacyMap_Contains H k m =
     (case LegacyMap_bucket H m k of Inl f \<Rightarrow> Inl f
      | Inr h \<Rightarrow> Inr (legacy_chain_contains k (data_l m ! h)))"

text \<open>
  \<open>Insert\<close> of \<open>map.h\<close> has the statement order of the later \<open>Insert\<close>: the node is
  built from \<open>key\<close> and the forwarded value first, the hash and the comparisons read
  \<open>key\<close> afterwards; \<open>node_key\<close> and \<open>k\<close> are kept apart in the same way. A node with
  the key always takes the new value (\<open>Node::Swap\<close>), the end of the chain takes the new
  node.
\<close>

fun legacy_chain_insert :: "'k \<Rightarrow> 'k \<Rightarrow> 'v \<Rightarrow> ('k, 'v) chain \<Rightarrow> ('k, 'v) chain" where
  "legacy_chain_insert node_key k v [] = [\<lparr>key = node_key, val = v\<rparr>]"
| "legacy_chain_insert node_key k v (n # ns) =
     (if key n = k then n\<lparr>val := v\<rparr> # ns else n # legacy_chain_insert node_key k v ns)"

definition LegacyMap_Insert ::
  "('k \<Rightarrow> u64) \<Rightarrow> 'k \<Rightarrow> 'k \<Rightarrow> 'v \<Rightarrow> ('k, 'v) LegacyMap_state
     \<Rightarrow> fault + unit \<times> ('k, 'v) LegacyMap_state" where
  "LegacyMap_Insert H node_key k v m =
     (case LegacyMap_bucket H m k of Inl f \<Rightarrow> Inl f
      | Inr h \<Rightarrow>
          Inr ((), m\<lparr>data_l := (data_l m)[h := legacy_chain_insert node_key k v (data_l m ! h)]\<rparr>))"

fun legacy_chain_erase :: "'k \<Rightarrow> ('k, 'v) chain \<Rightarrow> ('k, 'v) chain \<times> bool" where
  "legacy_chain_erase k [] = ([], False)"
| "legacy_chain_erase k (n # ns) =
     (if key n = k then (ns, True)
      else (case legacy_chain_erase k ns of (ns', r) \<Rightarrow> (n # ns', r)))"

definition LegacyMap_Erase ::
  "('k \<Rightarrow> u64) \<Rightarrow> 'k \<Rightarrow> ('k, 'v) LegacyMap_state \<Rightarrow> fault + bool \<times> ('k, 'v) LegacyMap_state" where
  "LegacyMap_Erase H k m =
     (case LegacyMap_bucket H m k of Inl f \<Rightarrow> Inl f
      | Inr h \<Rightarrow>
          (case legacy_chain_erase k (data_l m ! h) of
             (c, r) \<Rightarrow> Inr (r, m\<lparr>data_l := (data_l m)[h := c]\<rparr>)))"

section \<open>Sequences of calls\<close>

text \<open>
  A single-threaded client calls the operations one after the other; each call is
  recorded with the value it returned. The value argument of an \<open>Insert\<close> in these
  sequences is another object than the key, so that the key is read as it was passed.
\<close>

datatype ('k, 'v) call =
  Insert_call 'k 'v bool | Erase_call 'k | Contains_call 'k | Find_call 'k

datatype 'v ret = Bool_ret bool | Opt_ret "'v option"

fun Map_call ::
  "('k \<Rightarrow> u64) \<Rightarrow> ('k, 'v) call \<Rightarrow> ('k, 'v) Map_state \<Rightarrow> fault + 'v ret \<times> ('k, 'v) Map_state" where
  "Map_call H (Insert_call k v replace) m =
     (case Map_Insert H k k v replace m of Inl f \<Rightarrow> Inl f
      | Inr (r, m') \<Rightarrow> Inr (Bool_ret r, m'))"
| "Map_call H (Erase_call k) m =
     (case Map_Erase H k m of Inl f \<Rightarrow> Inl f
      | Inr (r, m') \<Rightarrow> Inr (Bool_ret r, m'))"
| "Map_call H (Contains_call k) m =
     (case Map_Contains H k m of Inl f \<Rightarrow> Inl f
      | Inr r \<Rightarrow> Inr (Bool_ret r, m))"
| "Map_call H (Find_call k) m =
     (case Map_Find H k m of Inl f \<Rightarrow> Inl f
      | Inr r \<Rightarrow> Inr (Opt_ret r, m))"

fun Map_run ::
  "('k \<Rightarrow> u64) \<Rightarrow> ('k, 'v) call list \<Rightarrow> ('k, 'v) Map_state
     \<Rightarrow> fault + 'v ret list \<times> ('k, 'v) Map_state" where
  "Map_run H [] m = Inr ([], m)"
| "Map_run H (c # cs) m =
     (case Map_call H c m of Inl f \<Rightarrow> Inl f
      | Inr (r, m') \<Rightarrow>
          (case Map_run H cs m' of Inl f \<Rightarrow> Inl f
           | Inr (rs, m'') \<Rightarrow> Inr (r # rs, m'')))"

text \<open>The calls of the table of \<open>map.h\<close>; its \<open>Insert\<close> returns nothing.\<close>

datatype ('k, 'v) legacy_call =
  LInsert_call 'k 'v | LErase_call 'k | LContains_call 'k | LFind_call 'k

datatype 'v legacy_ret = LVoid_ret | LBool_ret bool | LOpt_ret "'v option"

fun LegacyMap_call ::
  "('k \<Rightarrow> u64) \<Rightarrow> ('k, 'v) legacy_call \<Rightarrow> ('k, 'v) LegacyMap_state
     \<Rightarrow> fault + 'v legacy_ret \<times> ('k, 'v) LegacyMap_state" where
  "LegacyMap_call H (LInsert_call k v) m =
     (case LegacyMap_Insert H k k v m of Inl f \<Rightarrow> Inl f
      | Inr (u, m') \<Rightarrow> Inr (LVoid_ret, m'))"
| "LegacyMap_call H (LErase_call k) m =
     (case LegacyMap_Erase H k m of Inl f \<Rightarrow> Inl f
      | Inr (r, m') \<Rightarrow> Inr (LBool_ret r, m'))"
| "LegacyMap_call H (LContains_call k) m =
     (case LegacyMap_Contains H k m of Inl f \<Rightarrow> Inl f
      | Inr r \<Rightarrow> Inr (LBool_ret r, m))"
| "LegacyMap_call H (LFind_call k) m =
     (case LegacyMap_Find H k m of Inl f \<Rightarrow> Inl f
      | Inr r \<Rightarrow> Inr (LOpt_ret r, m))"

fun LegacyMap_run ::
  "('k \<Rightarrow> u64) \<Rightarrow> ('k, 'v) legacy_call list \<Rightarrow> ('k, 'v) LegacyMap_state
     \<Rightarrow> fault + 'v legacy_ret list \<times> ('k, 'v) LegacyMap_state" where
  "LegacyMap_run H [] m = Inr ([], m)"
| "LegacyMap_run H (c # cs) m =
     (case LegacyMap_call H c m of Inl f \<Rightarrow> Inl f
      | Inr (r, m') \<Rightarrow>
          (case LegacyMap_run H cs m' of Inl f \<Rightarrow> Inl f
           | Inr (rs, m'') \<Rightarrow> Inr (r # rs, m'')))"

text \<open>
  The same call on the table of \<open>unnamed/part_000\<close>, every \<open>Insert\<close> with
  \<open>replace = true\<close>, and when two returned values agree: the \<open>void\<close> of the earlier
  \<open>Insert\<close> agrees with any value.
\<close>

fun with_replace :: "('k, 'v) legacy_call \<Rightarrow> ('k, 'v) call" where
  "with_replace (LInsert_call k v) = Insert_call k v True"
| "with_replace (LErase_call k) = Erase_call k"
| "with_replace (LContains_call k) = Contains_call k"
| "with_replace (LFind_call k) = Find_call k"

fun ret_agree :: "'v legacy_ret \<Rightarrow> 'v ret \<Rightarrow> bool" where
  "ret_agree LVoid_ret r = True"
| "ret_agree (LBool_ret b) r = (r = Bool_ret b)"
| "ret_agree (LOpt_ret v) r = (r = Opt_ret v)"

section \<open>Interleaved calls on one bucket\<close>

text \<open>
  For calls that run at the same time, the chain of one bucket is a store of nodes at
  addresses, since a thread holds pointers to nodes while others change the chain, and
  every mutex has an owner or is free. The state is the bucket's \<open>head\<close>, the nodes, the
  counter \<open>count_\<close>, the mutexes that are held (\<open>bucket.m\<close> and the \<open>m\<close> of each
  node) and the threads. Only \<open>Insert\<close> and \<open>Erase\<close> of \<open>unnamed/part_000\<close> run here;
  they take every mutex with \<open>std::unique_lock\<close>. The value argument of an \<open>Insert\<close>
  is another object than its key.
\<close>

type_synonym addr = nat

type_synonym tid = nat

record ('k, 'v) cnode =
  ckey :: 'k
  cval :: 'v
  cnext :: "addr option"

datatype mutex = Bucket_m | Node_m addr

text \<open>
  Where a thread stands in its call, with its local variables. An \<open>Insert\<close> carries
  its key, value and \<open>replace\<close> flag and the address of the node it built before taking
  any lock; then the node \<open>n\<close> it stands on (for \<open>Erase\<close>: \<open>node\<close>), the node \<open>next\<close>
  it is about to lock, and the mutex its \<open>lk\<close> holds.
  \<^item> \<open>Insert_start\<close>: before \<open>std::unique_lock lk(bucket.m)\<close>;
  \<^item> \<open>Insert_test\<close>: before the loop test \<open>(next = n->next.get()) != nullptr\<close>;
  \<^item> \<open>Insert_lock\<close>: before \<open>std::unique_lock n_lk(next->m)\<close>;
  \<^item> \<open>Insert_link\<close>: after the loop, before \<open>n->next = std::move(new_node)\<close>;
  \<^item> \<open>Erase_start\<close>, \<open>Erase_test\<close>, \<open>Erase_lock\<close>: the same places of \<open>Erase\<close>;
  \<^item> \<open>Returned\<close>: the call has returned the value, its locks released;
  \<^item> \<open>Destroyed_read\<close>: the thread has read a node that was destroyed.
\<close>

datatype ('k, 'v) thread =
    Insert_start 'k 'v bool addr
  | Insert_test 'k 'v bool addr addr mutex
  | Insert_lock 'k 'v bool addr addr addr mutex
  | Insert_link 'k 'v bool addr addr mutex
  | Erase_start 'k
  | Erase_test 'k addr mutex
  | Erase_lock 'k addr addr mutex
  | Returned bool
  | Destroyed_read

record ('k, 'v) bucket_state =
  b_head :: "addr option"
  b_store :: "(addr \<times> ('k, 'v) cnode) list"
  b_count :: u64
  b_held :: "(mutex \<times> tid) list"
  b_threads :: "('k, 'v) thread list"

definition held :: "mutex \<Rightarrow> ('k, 'v) bucket_state \<Rightarrow> bool" where
  "held mx st = (map_of (b_held st) mx \<noteq> None)"

definition lock :: "mutex \<Rightarrow> tid \<Rightarrow> ('k, 'v) bucket_state \<Rightarrow> ('k, 'v) bucket_state" where
  "lock mx t st = st\<lparr>b_held := (mx, t) # b_held st\<rparr>"

definition unlock :: "mutex \<Rightarrow> ('k, 'v) bucket_state \<Rightarrow> ('k, 'v) bucket_state" where
  "unlock mx st = st\<lparr>b_held := filter (\<lambda>p. fst p \<noteq> mx) (b_held st)\<rparr>"

definition node_at :: "addr \<Rightarrow> ('k, 'v) bucket_state \<Rightarrow> ('k, 'v) cnode option" where
  "node_at a st = map_of (b_store st) a"

definition put_node :: "addr \<Rightarrow> ('k, 'v) cnode \<Rightarrow> ('k, 'v) bucket_state \<Rightarrow> ('k, 'v) bucket_state" where
  "put_node a nd st = st\<lparr>b_store := (a, nd) # filter (\<lambda>p. fst p \<noteq> a) (b_store st)\<rparr>"

text \<open>Destroying one node whose \<open>next\<close> was moved out before.\<close>

definition destroy_node :: "addr \<Rightarrow> ('k, 'v) bucket_state \<Rightarrow> ('k, 'v) bucket_state" where
  "destroy_node a st = st\<lparr>b_store := filter (\<lambda>p. fst p \<noteq> a) (b_store st)\<rparr>"

text \<open>
  Assigning to an owning pointer destroys the node it owned, and with it the nodes that
  one owns. The recursion is bounded by the number of nodes in the store.
\<close>

fun destroy_chain ::
  "nat \<Rightarrow> addr option \<Rightarrow> (addr \<times> ('k, 'v) cnode) list \<Rightarrow> (addr \<times> ('k, 'v) cnode) list" where
  "destroy_chain 0 p s = s"
| "destroy_chain (Suc n) None s = s"
| "destroy_chain (Suc n) (Some a) s =
     (case map_of s a of None \<Rightarrow> s
      | Some nd \<Rightarrow> destroy_chain n (cnext nd) (filter (\<lambda>p. fst p \<noteq> a) s))"

definition destroy_owned :: "addr option \<Rightarrow> ('k, 'v) bucket_state \<Rightarrow> ('k, 'v) bucket_state" where
  "destroy_owned p st = st\<lparr>b_store := destroy_chain (length (b_store st)) p (b_store st)\<rparr>"

definition at_place :: "tid \<Rightarrow> ('k, 'v) thread \<Rightarrow> ('k, 'v) bucket_state \<Rightarrow> ('k, 'v) bucket_state" where
  "at_place t th st = st\<lparr>b_threads := (b_threads st)[t := th]\<rparr>"

text \<open>
  One step of a thread: from its place to the next place, or to the return. A step that
  starts with taking a mutex exists only when the mutex is free. The lines are those of
  \<open>unnamed/part_000\<close>.
\<close>

fun step_at ::
  "tid \<Rightarrow> ('k, 'v) thread \<Rightarrow> ('k, 'v) bucket_state \<Rightarrow> ('k, 'v) bucket_state option" where
  "step_at t (Insert_start k v replace a) st =
     \<comment> \<open>l.139-152: lock \<open>bucket.m\<close>, the empty bucket, the head node\<close>
     (if held Bucket_m st then None
      else (case b_head st of
          None \<Rightarrow>
            Some (at_place t (Returned True)
                   (put_node a \<lparr>ckey = k, cval = v, cnext = None\<rparr>
                      (st\<lparr>b_head := Some a, b_count := b_count st + 1\<rparr>)))
        | Some n \<Rightarrow>
            (case node_at n st of
               None \<Rightarrow> Some (at_place t Destroyed_read st)
             | Some nd \<Rightarrow>
                 if ckey nd = k then
                   (if \<not> replace then Some (at_place t (Returned False) st)
                    else Some (at_place t (Returned True) (put_node n (nd\<lparr>cval := v\<rparr>) st)))
                 else Some (at_place t (Insert_test k v replace a n Bucket_m)
                              (lock Bucket_m t st)))))"
| "step_at t (Insert_test k v replace a n lk) st =
     \<comment> \<open>l.154: the loop test reads \<open>n->next\<close>\<close>
     (case node_at n st of
        None \<Rightarrow> Some (at_place t Destroyed_read st)
      | Some nd \<Rightarrow>
          (case cnext nd of
             None \<Rightarrow> Some (at_place t (Insert_link k v replace a n lk) st)
           | Some nx \<Rightarrow> Some (at_place t (Insert_lock k v replace a n nx lk) st)))"
| "step_at t (Insert_lock k v replace a n nx lk) st =
     \<comment> \<open>l.155-165: lock \<open>next->m\<close>, unlock \<open>lk\<close>, compare, move on\<close>
     (if held (Node_m nx) st then None
      else (case node_at nx st of
          None \<Rightarrow> Some (at_place t Destroyed_read st)
        | Some nd \<Rightarrow>
            if ckey nd = k then
              (if \<not> replace then Some (at_place t (Returned False) (unlock lk st))
               else Some (at_place t (Returned True)
                            (put_node nx (nd\<lparr>cval := v\<rparr>) (unlock lk st))))
            else Some (at_place t (Insert_test k v replace a nx (Node_m nx))
                         (lock (Node_m nx) t (unlock lk st)))))"
| "step_at t (Insert_link k v replace a n lk) st =
     \<comment> \<open>l.167-169: \<open>n->next = std::move(new_node); ++count_; return true\<close>\<close>
     (case node_at n st of
        None \<Rightarrow> Some (at_place t Destroyed_read st)
      | Some nd \<Rightarrow>
          Some (at_place t (Returned True)
                 (unlock lk
                    (put_node a \<lparr>ckey = k, cval = v, cnext = None\<rparr>
                       (put_node n (nd\<lparr>cnext := Some a\<rparr>)
                          (destroy_owned (cnext nd) (st\<lparr>b_count := b_count st + 1\<rparr>)))))))"
| "step_at t (Erase_start k) st =
     \<comment> \<open>l.176-185: lock \<open>bucket.m\<close>, the empty bucket, the head node\<close>
     (if held Bucket_m st then None
      else (case b_head st of
          None \<Rightarrow> Some (at_place t (Returned False) st)
        | Some node \<Rightarrow>
            (case node_at node st of
               None \<Rightarrow> Some (at_place t Destroyed_read st)
             | Some nd \<Rightarrow>
                 if ckey nd = k then
                   Some (at_place t (Returned True)
                          (destroy_node node
                             (st\<lparr>b_head := cnext nd, b_count := b_count st - 1\<rparr>)))
                 else Some (at_place t (Erase_test k node Bucket_m) (lock Bucket_m t st)))))"
| "step_at t (Erase_test k node lk) st =
     \<comment> \<open>l.187: the loop test reads \<open>node->next\<close>; l.198 when it is null\<close>
     (case node_at node st of
        None \<Rightarrow> Some (at_place t Destroyed_read st)
      | Some nd \<Rightarrow>
          (case cnext nd of
             None \<Rightarrow> Some (at_place t (Returned False) (unlock lk st))
           | Some nx \<Rightarrow> Some (at_place t (Erase_lock k node nx lk) st)))"
| "step_at t (Erase_lock k node nx lk) st =
     \<comment> \<open>l.188-196: lock \<open>next->m\<close>, compare, unlink or move on\<close>
     (if held (Node_m nx) st then None
      else (case node_at nx st of
          None \<Rightarrow> Some (at_place t Destroyed_read st)
        | Some nxd \<Rightarrow>
            if ckey nxd = k then
              (case node_at node st of
                 None \<Rightarrow> Some (at_place t Destroyed_read st)
               | Some nd \<Rightarrow>
                   Some (at_place t (Returned True)
                          (unlock lk
                             (destroy_node nx
                                (put_node node (nd\<lparr>cnext := cnext nxd\<rparr>)
                                   (st\<lparr>b_count := b_count st - 1\<rparr>))))))
            else Some (at_place t (Erase_test k nx (Node_m nx))
                         (lock (Node_m nx) t (unlock lk st)))))"
| "step_at t (Returned b) st = None"
| "step_at t Destroyed_read st = None"

definition thread_step :: "tid \<Rightarrow> ('k, 'v) bucket_state \<Rightarrow> ('k, 'v) bucket_state option" where
  "thread_step t st =
     (if t < length (b_threads st) then step_at t (b_threads st ! t) st else None)"

text \<open>
  A schedule names the thread that takes each step; it is admissible when every step
  exists.
\<close>

fun run_schedule :: "tid list \<Rightarrow> ('k, 'v) bucket_state \<Rightarrow> ('k, 'v) bucket_state option" where
  "run_schedule [] st = Some st"
| "run_schedule (t # ts) st =
     (case thread_step t st of None \<Rightarrow> None | Some st' \<Rightarrow> run_schedule ts st')"

text \<open>The chain that hangs from \<open>head\<close>, as the sequential functions see it.\<close>

fun chain_from ::
  "nat \<Rightarrow> addr option \<Rightarrow> (addr \<times> ('k, 'v) cnode) list \<Rightarrow> ('k, 'v) chain" where
  "chain_from 0 p s = []"
| "chain_from (Suc n) None s = []"
| "chain_from (Suc n) (Some a) s =
     (case map_of s a of None \<Rightarrow> []
      | Some nd \<Rightarrow> \<lparr>key = ckey nd, val = cval nd\<rparr> # chain_from n (cnext nd) s)"

definition bucket_chain :: "('k, 'v) bucket_state \<Rightarrow> ('k, 'v) chain" where
  "bucket_chain st = chain_from (length (b_store st)) (b_head st) (b_store st)"

section \<open>Specification-side definitions\<close>

text \<open>
  The reading of a history of calls on a fresh table, most recent call first: a key is
  live when, going back in time, a successful \<open>Insert\<close> of the key is met before any
  \<open>Erase\<close> of it. Lookups, calls on other keys and an \<open>Insert\<close> that returned
  \<open>false\<close> are passed over.
\<close>

fun spec_live :: "'k \<Rightarrow> (('k, 'v) call \<times> 'v ret) list \<Rightarrow> bool" where
  "spec_live k [] = False"
| "spec_live k ((Insert_call k' v replace, r) # h) =
     (if k' = k \<and> r = Bool_ret True then True else spec_live k h)"
| "spec_live k ((Erase_call k', r) # h) = (if k' = k then False else spec_live k h)"
| "spec_live k ((Contains_call k', r) # h) = spec_live k h"
| "spec_live k ((Find_call k', r) # h) = spec_live k h"

text \<open>
  The standard mapping a table is compared with: a partial function from keys to values,
  with what each call returns on it and how the call changes it.
\<close>

fun spec_call :: "('k, 'v) call \<Rightarrow> ('k \<rightharpoonup> 'v) \<Rightarrow> 'v ret \<times> ('k \<rightharpoonup> 'v)" where
  "spec_call (Insert_call k v replace) f =
     (if f k \<noteq> None \<and> \<not> replace then (Bool_ret False, f) else (Bool_ret True, f(k \<mapsto> v)))"
| "spec_call (Erase_call k) f = (Bool_ret (f k \<noteq> None), f(k := None))"
| "spec_call (Contains_call k) f = (Bool_ret (f k \<noteq> None), f)"
| "spec_call (Find_call k) f = (Opt_ret (f k), f)"

fun spec_run :: "('k, 'v) call list \<Rightarrow> ('k \<rightharpoonup> 'v) \<Rightarrow> 'v ret list \<times> ('k \<rightharpoonup> 'v)" where
  "spec_run [] f = ([], f)"
| "spec_run (c # cs) f =
     (case spec_call c f of (r, f') \<Rightarrow> (case spec_run cs f' of (rs, f'') \<Rightarrow> (r # rs, f'')))"

section \<open>Invariants\<close>

text \<open>
  A table is well formed when it has a bucket and \<open>data_\<close> has \<open>size_\<close> buckets, as
  the constructor leaves it. No chain holds a key twice; every node sits in the bucket
  of its hash; the counter is the number of nodes, as a \<open>uint64_t\<close>.
\<close>

definition Map_wf :: "('k, 'v) Map_state \<Rightarrow> bool" where
  "Map_wf m = (size_m m \<noteq> 0 \<and> length (data_m m) = unat (size_m m))"

definition Map_nodup :: "('k, 'v) Map_state \<Rightarrow> bool" where
  "Map_nodup m = (\<forall>c \<in> set (data_m m). distinct (map key c))"

definition Map_slot :: "('k \<Rightarrow> u64) \<Rightarrow> ('k, 'v) Map_state \<Rightarrow> 'k \<Rightarrow> nat" where
  "Map_slot H m k = unat (H k mod size_m m)"

definition Map_placed :: "('k \<Rightarrow> u64) \<Rightarrow> ('k, 'v) Map_state \<Rightarrow> bool" where
  "Map_placed H m =
     (\<forall>i < length (data_m m). \<forall>n \<in> set (data_m m ! i). Map_slot H m (key n) = i)"

definition Map_nodes :: "('k, 'v) Map_state \<Rightarrow> nat" where
  "Map_nodes m = length (concat (data_m m))"

definition Map_keys :: "('k, 'v) Map_state \<Rightarrow> 'k set" where
  "Map_keys m = set (map key (concat (data_m m)))"

definition Map_counted :: "('k, 'v) Map_state \<Rightarrow> bool" where
  "Map_counted m = (count_m m = of_nat (Map_nodes m))"

definition Map_inv :: "('k \<Rightarrow> u64) \<Rightarrow> ('k, 'v) Map_state \<Rightarrow> bool" where
  "Map_inv H m = (Map_wf m \<and> Map_nodup m \<and> Map_placed H m \<and> Map_counted m)"

definition Set_wf :: "'a Set_state \<Rightarrow> bool" where
  "Set_wf s = (size_s s \<noteq> 0 \<and> length (data_s s) = unat (size_s s))"

definition Set_nodup :: "'a Set_state \<Rightarrow> bool" where
  "Set_nodup s = (\<forall>c \<in> set (data_s s). distinct c)"

definition Set_slot :: "('a \<Rightarrow> u64) \<Rightarrow> 'a Set_state \<Rightarrow> 'a \<Rightarrow> nat" where
  "Set_slot H s x = unat (H x mod size_s s)"

definition Set_placed :: "('a \<Rightarrow> u64) \<Rightarrow> 'a Set_state \<Rightarrow> bool" where
  "Set_placed H s =
     (\<forall>i < length (data_s s). \<forall>x \<in> set (data_s s ! i). Set_slot H s x = i)"

definition Set_nodes :: "'a Set_state \<Rightarrow> nat" where
  "Set_nodes s = length (concat (data_s s))"

definition Set_values :: "'a Set_state \<Rightarrow> 'a set" where
  "Set_values s = set (concat (data_s s))"

definition Set_counted :: "'a Set_state \<Rightarrow> bool" where
  "Set_counted s = (count_s s = of_nat (Set_nodes s))"

definition Set_inv :: "('a \<Rightarrow> u64) \<Rightarrow> 'a Set_state \<Rightarrow> bool" where
  "Set_inv H s = (Set_wf s \<and> Set_nodup s \<and> Set_placed H s \<and> Set_counted s)"

section \<open>Examples\<close>


definition len_hash :: "string \<Rightarrow> u64" where
  "len_hash s = of_nat (length s)"



text \<open>
  What an rvalue \<open>std::string\<close> holds after it has been moved into a node. The
  standard calls the state valid but unspecified; the move constructors of the common
  standard libraries leave the empty string.
\<close>

definition moved_from :: string where
  "moved_from = []"

text \<open>
  A bucket with the chain \<open>"A"\<close>, \<open>"B"\<close> and three calls about to start:
  \<open>Insert("C", 3)\<close>, \<open>Erase("A")\<close> and \<open>Insert("C", 4)\<close>; and the same bucket as the
  only bucket of a table.
\<close>

definition race_start :: "(string, int) bucket_state" where
  "race_start =
     \<lparr>b_head = Some 0,
      b_store = [(0, \<lparr>ckey = ''A'', cval = 1, cnext = Some 1\<rparr>),
                 (1, \<lparr>ckey = ''B'', cval = 2, cnext = None\<rparr>)],
      b_count = 2,
      b_held = [],
      b_threads = [Insert_start ''C'' 3 False 2, Erase_start ''A'', Insert_start ''C'' 4 False 3]\<rparr>"

definition race_table :: "(string, int) Map_state" where
  "race_table =
     \<lparr>size_m = 1, count_m = 2,
      data_m = [[\<lparr>key = ''A'', val = 1\<rparr>, \<lparr>key = ''B'', val = 2\<rparr>]]\<rparr>"

text \<open>
  The same bucket with four other calls about to start: \<open>Erase("B")\<close>,
  \<open>Insert("A", 9, true)\<close>, \<open>Erase("Z")\<close> and \<open>Insert("D", 5)\<close>.
\<close>

definition serial_start :: "(string, int) bucket_state" where
  "serial_start =
     \<lparr>b_head = Some 0,
      b_store = [(0, \<lparr>ckey = ''A'', cval = 1, cnext = Some 1\<rparr>),
                 (1, \<lparr>ckey = ''B'', cval = 2, cnext = None\<rparr>)],
      b_count = 2,
      b_held = [],
      b_threads = [Erase_start ''B'', Insert_start ''A'' 9 True 2, Erase_start ''Z'',
                   Insert_start ''D'' 5 False 3]\<rparr>"

text \<open>
  The scenario of the reference tests as the specification lists it, on a
  \<open>Map<std::string, int>\<close>; the stored values are small and are modelled as \<open>int\<close>.
  A call without the \<open>replace\<close> argument takes the default \<open>false\<close>.
\<close>

definition scenario :: "(string, int) call list" where
  "scenario =
     [Insert_call ''aboba'' 10 False, Insert_call ''aboba'' 5 True, Find_call ''aboba'',
      Insert_call ''zeleboba'' 10 False, Insert_call ''dassyr'' 20 False,
      Erase_call ''aboba'', Erase_call ''aboba'',
      Find_call ''aboba'', Find_call ''dassyr'', Find_call ''zeleboba'']"

section \<open>Properties of the Map\<close>

subsection \<open>Chains\<close>

lemma chain_contains_iff: "chain_contains k c = (k \<in> set (map key c))"
  by (induction c) auto

lemma chain_find_None_iff: "(chain_find k c = None) = (k \<notin> set (map key c))"
  by (induction c) auto

lemma chain_contains_find: "chain_contains k c = (chain_find k c \<noteq> None)"
  by (induction c) auto

lemma chain_find_append:
  "chain_find k (a @ b) = (case chain_find k a of None \<Rightarrow> chain_find k b | Some v \<Rightarrow> Some v)"
  by (induction a) auto

lemma chain_insert_keys:
  "map key (fst (chain_insert nk k v r c)) = (if k \<in> set (map key c) then map key c else map key c @ [nk])"
  by (induction c) (auto split: prod.splits)

lemma chain_insert_distinct: "distinct (map key c) \<Longrightarrow> distinct (map key (fst (chain_insert k k v r c)))"
  by (simp add: chain_insert_keys)

lemma chain_insert_ret: "fst (snd (chain_insert nk k v r c)) = (k \<notin> set (map key c) \<or> r)"
  by (induction c) (auto split: prod.splits)

lemma chain_insert_inc: "snd (snd (chain_insert nk k v r c)) = (k \<notin> set (map key c))"
  by (induction c) (auto split: prod.splits)

lemma chain_insert_find:
  "chain_find k' (fst (chain_insert k k v r c)) =
     (if k' = k then (if k \<in> set (map key c) \<and> \<not> r then chain_find k c else Some v)
      else chain_find k' c)"
  by (induction c) (auto split: prod.splits)


lemma chain_insert_length:
  "length (fst (chain_insert nk k v r c)) = (if k \<in> set (map key c) then length c else Suc (length c))"
  using arg_cong [OF chain_insert_keys, of length nk k v r c] by (simp split: if_splits)

lemma chain_erase_keys: "map key (fst (chain_erase k c)) = remove1 k (map key c)"
  by (induction c) (auto split: prod.splits)

lemma chain_erase_ret: "snd (chain_erase k c) = (k \<in> set (map key c))"
  by (induction c) (auto split: prod.splits)

lemma chain_erase_absent: "k \<notin> set (map key c) \<Longrightarrow> fst (chain_erase k c) = c"
  by (induction c) (auto split: prod.splits)

lemma chain_erase_find_other: "k' \<noteq> k \<Longrightarrow> chain_find k' (fst (chain_erase k c)) = chain_find k' c"
  by (induction c) (auto split: prod.splits)

lemma chain_erase_find_same:
  "distinct (map key c) \<Longrightarrow> chain_find k (fst (chain_erase k c)) = None"
  by (induction c) (auto split: prod.splits simp: chain_find_None_iff)

lemma chain_erase_length:
  "k \<in> set (map key c) \<Longrightarrow> Suc (length (fst (chain_erase k c))) = length c"
  by (induction c) (auto split: prod.splits)

lemma length_concat_update:
  "i < length xs \<Longrightarrow> length (concat (xs[i := c])) + length (xs ! i) = length (concat xs) + length c"
  by (induction xs arbitrary: i) (auto split: nat.splits)

subsection \<open>Buckets\<close>

lemma slot_less: "sz \<noteq> 0 \<Longrightarrow> unat (h mod sz) < unat (sz :: u64)"
  by (meson word_greater_zero_iff word_less_iff_unsigned word_mod_less_divisor)

lemma Map_bucket_wf: "Map_wf m \<Longrightarrow> Map_bucket H m k = Inr (Map_slot H m k)"
  by (simp add: Map_wf_def Map_bucket_def Map_slot_def Let_def slot_less)

lemma Map_slot_less: "Map_wf m \<Longrightarrow> Map_slot H m k < length (data_m m)"
  by (simp add: Map_wf_def Map_slot_def slot_less)

lemma Map_bucket_Inr:
  "Map_bucket H m k = Inr h \<Longrightarrow> h = Map_slot H m k \<and> h < length (data_m m) \<and> size_m m \<noteq> 0"
  by (auto simp: Map_bucket_def Map_slot_def Let_def split: if_splits)

text \<open>Replacing one chain.\<close>

lemma Map_wf_upd:
  "Map_wf m \<Longrightarrow> size_m m' = size_m m \<Longrightarrow> data_m m' = (data_m m)[h := c] \<Longrightarrow> Map_wf m'"
  by (simp add: Map_wf_def)

lemma Map_nodup_upd:
  "Map_nodup m \<Longrightarrow> data_m m' = (data_m m)[h := c] \<Longrightarrow> distinct (map key c) \<Longrightarrow> Map_nodup m'"
  by (auto simp: Map_nodup_def dest!: set_update_subset_insert [THEN subsetD])

lemma Map_placed_upd:
  "Map_placed H m \<Longrightarrow> size_m m' = size_m m \<Longrightarrow> data_m m' = (data_m m)[h := c]
     \<Longrightarrow> \<forall>n \<in> set c. Map_slot H m (key n) = h \<Longrightarrow> Map_placed H m'"
  by (cases "h < length (data_m m)") (auto simp: Map_placed_def Map_slot_def nth_list_update)

lemma Map_counted_upd:
  assumes "Map_counted m" and "h < length (data_m m)" and "data_m m' = (data_m m)[h := c]"
    and "(length c = length (data_m m ! h) \<and> count_m m' = count_m m)
       \<or> (length c = Suc (length (data_m m ! h)) \<and> count_m m' = count_m m + 1)
       \<or> (Suc (length c) = length (data_m m ! h) \<and> count_m m' = count_m m - 1)"
  shows "Map_counted m'"
proof -
  have eq: "Map_nodes m' + length (data_m m ! h) = Map_nodes m + length c"
    using assms(2,3) by (simp add: Map_nodes_def length_concat_update)
  from assms(4) consider
      (same) "length c = length (data_m m ! h)" "count_m m' = count_m m"
    | (inc) "length c = Suc (length (data_m m ! h))" "count_m m' = count_m m + 1"
    | (dec) "Suc (length c) = length (data_m m ! h)" "count_m m' = count_m m - 1"
    by blast
  then show ?thesis
  proof cases
    case same
    with eq have "Map_nodes m' = Map_nodes m" by simp
    with same assms(1) show ?thesis by (simp add: Map_counted_def)
  next
    case inc
    with eq have "Map_nodes m' = Suc (Map_nodes m)" by simp
    with inc assms(1) show ?thesis by (simp add: Map_counted_def)
  next
    case dec
    with eq have "Map_nodes m = Suc (Map_nodes m')" by simp
    with dec assms(1) show ?thesis by (simp add: Map_counted_def)
  qed
qed

subsection \<open>Lookups\<close>

lemma Map_Find_wf:
  "Map_wf m \<Longrightarrow> Map_Find H k m = Inr (chain_find k (data_m m ! Map_slot H m k))"
  by (simp add: Map_Find_def Map_bucket_wf)

lemma Map_Contains_wf:
  "Map_wf m \<Longrightarrow> Map_Contains H k m = Inr (k \<in> set (map key (data_m m ! Map_slot H m k)))"
  by (simp add: Map_Contains_def Map_bucket_wf chain_contains_iff)

lemma Map_Contains_Find:
  "Map_Contains H k m = map_sum id (\<lambda>v. v \<noteq> None) (Map_Find H k m)"
  by (auto simp: Map_Contains_def Map_Find_def chain_contains_find split: sum.splits)

lemma Map_Find_upd:
  assumes "Map_wf m" and "size_m m' = size_m m" and "data_m m' = (data_m m)[h := c]"
  shows "Map_Find H k' m' =
       Inr (if Map_slot H m k' = h then chain_find k' c
            else chain_find k' (data_m m ! Map_slot H m k'))"
proof -
  have "Map_wf m'" using assms by (rule Map_wf_upd)
  moreover have "Map_slot H m' k' = Map_slot H m k'" using assms(2) by (simp add: Map_slot_def)
  ultimately show ?thesis
    using Map_slot_less [OF assms(1), of H k'] assms(3) by (simp add: Map_Find_wf)
qed

subsection \<open>Insert\<close>

lemma Map_Insert_Inr:
  assumes "Map_Insert H nk k v r m = Inr (b, m')"
  shows "Map_slot H m k < length (data_m m)"
    and "size_m m' = size_m m"
    and "data_m m' = (data_m m)[Map_slot H m k :=
                         fst (chain_insert nk k v r (data_m m ! Map_slot H m k))]"
    and "count_m m' = (if k \<in> set (map key (data_m m ! Map_slot H m k)) then count_m m
                          else count_m m + 1)"
    and "b = (k \<notin> set (map key (data_m m ! Map_slot H m k)) \<or> r)"
  using assms
  by (auto simp: Map_Insert_def case_prod_beta chain_insert_ret chain_insert_inc
           split: sum.splits dest!: Map_bucket_Inr)

lemma Map_Insert_defined:
  "Map_wf m \<Longrightarrow> \<exists>b m'. Map_Insert H nk k v r m = Inr (b, m')"
  by (simp add: Map_Insert_def Map_bucket_wf case_prod_beta)

lemma chain_insert_keys_set:
  "key ` set (fst (chain_insert k k v r c)) \<subseteq> insert k (key ` set c)"
  using arg_cong [OF chain_insert_keys, of set k k v r c] by (auto split: if_splits)

text \<open>Whatever key the node receives, the table stays well formed and counted.\<close>

lemma Map_Insert_counted:
  assumes "Map_Insert H nk k v r m = Inr (b, m')"
  shows "Map_wf m \<Longrightarrow> Map_wf m'"
    and "Map_counted m \<Longrightarrow> Map_counted m'"
proof -
  note I = Map_Insert_Inr [OF assms]
  show "Map_wf m'" if "Map_wf m"
    using that I(2,3) by (rule Map_wf_upd)
  show "Map_counted m'" if "Map_counted m"
    by (rule Map_counted_upd [OF that I(1) I(3)]) (simp add: I(4) chain_insert_length)
qed

text \<open>A key that is read as the node received it.\<close>

lemma Map_Insert_inv:
  assumes "Map_Insert H k k v r m = Inr (b, m')"
  shows "Map_wf m \<Longrightarrow> Map_wf m'"
    and "Map_nodup m \<Longrightarrow> Map_nodup m'"
    and "Map_placed H m \<Longrightarrow> Map_placed H m'"
    and "Map_counted m \<Longrightarrow> Map_counted m'"
proof -
  let ?h = "Map_slot H m k"
  let ?c = "fst (chain_insert k k v r (data_m m ! ?h))"
  note I = Map_Insert_Inr [OF assms]
  show "Map_wf m'" if "Map_wf m"
    using that I(2,3) by (rule Map_wf_upd)
  show "Map_nodup m'" if "Map_nodup m"
  proof -
    have "distinct (map key (data_m m ! ?h))" using that I(1) by (simp add: Map_nodup_def)
    then have "distinct (map key ?c)" by (rule chain_insert_distinct)
    with that I(3) show ?thesis by (rule Map_nodup_upd)
  qed
  show "Map_placed H m'" if "Map_placed H m"
  proof -
    have "\<forall>n \<in> set ?c. Map_slot H m (key n) = ?h"
      using chain_insert_keys_set [of k v r "data_m m ! ?h"] that I(1)
      by (auto simp: Map_placed_def)
    with that I(2,3) show ?thesis by (rule Map_placed_upd)
  qed
  show "Map_counted m'" if "Map_counted m"
    by (rule Map_counted_upd [OF that I(1) I(3)]) (simp add: I(4) chain_insert_length)
qed

lemma Map_Insert_Find:
  assumes "Map_Insert H k k v r m = Inr (b, m')" and "Map_wf m"
  shows "Map_Find H k' m' =
           (if k' = k then (if Map_Contains H k m = Inr True \<and> \<not> r then Map_Find H k m else Inr (Some v))
            else Map_Find H k' m)"
  using Map_Insert_Inr(2,3) [OF assms(1)] assms(2)
  by (auto simp: Map_Find_upd Map_Find_wf Map_Contains_wf chain_insert_find)

lemma Map_Insert_ret:
  assumes "Map_Insert H k k v r m = Inr (b, m')" and "Map_wf m"
  shows "b = (Map_Contains H k m = Inr False \<or> r)"
  using Map_Insert_Inr(5) [OF assms(1)] assms(2) by (auto simp: Map_Contains_wf)

subsection \<open>Erase\<close>

lemma Map_Erase_Inr:
  assumes "Map_Erase H k m = Inr (b, m')"
  shows "Map_slot H m k < length (data_m m)"
    and "size_m m' = size_m m"
    and "data_m m' = (data_m m)[Map_slot H m k := fst (chain_erase k (data_m m ! Map_slot H m k))]"
    and "count_m m' = (if k \<in> set (map key (data_m m ! Map_slot H m k)) then count_m m - 1
                          else count_m m)"
    and "b = (k \<in> set (map key (data_m m ! Map_slot H m k)))"
  using assms
  by (auto simp: Map_Erase_def case_prod_beta chain_erase_ret
           split: sum.splits dest!: Map_bucket_Inr)

lemma Map_Erase_defined:
  "Map_wf m \<Longrightarrow> \<exists>b m'. Map_Erase H k m = Inr (b, m')"
  by (simp add: Map_Erase_def Map_bucket_wf case_prod_beta)

lemma chain_erase_subset: "set (fst (chain_erase k c)) \<subseteq> set c"
  by (induction c) (auto split: prod.splits)

lemma chain_erase_distinct: "distinct (map key c) \<Longrightarrow> distinct (map key (fst (chain_erase k c)))"
  by (simp add: chain_erase_keys)

lemma Map_Erase_inv:
  assumes "Map_Erase H k m = Inr (b, m')"
  shows "Map_wf m \<Longrightarrow> Map_wf m'"
    and "Map_nodup m \<Longrightarrow> Map_nodup m'"
    and "Map_placed H m \<Longrightarrow> Map_placed H m'"
    and "Map_counted m \<Longrightarrow> Map_counted m'"
proof -
  let ?h = "Map_slot H m k"
  let ?c = "fst (chain_erase k (data_m m ! ?h))"
  note E = Map_Erase_Inr [OF assms]
  show "Map_wf m'" if "Map_wf m"
    using that E(2,3) by (rule Map_wf_upd)
  show "Map_nodup m'" if "Map_nodup m"
  proof -
    have "distinct (map key (data_m m ! ?h))" using that E(1) by (simp add: Map_nodup_def)
    then have "distinct (map key ?c)" by (rule chain_erase_distinct)
    with that E(3) show ?thesis by (rule Map_nodup_upd)
  qed
  show "Map_placed H m'" if "Map_placed H m"
  proof -
    have "\<forall>n \<in> set ?c. Map_slot H m (key n) = ?h"
      using chain_erase_subset [of k "data_m m ! ?h"] that E(1)
      by (auto simp: Map_placed_def)
    with that E(2,3) show ?thesis by (rule Map_placed_upd)
  qed
  show "Map_counted m'" if "Map_counted m"
  proof (cases "k \<in> set (map key (data_m m ! ?h))")
    case True
    then show ?thesis
      using chain_erase_length [OF True]
      by (intro Map_counted_upd [OF that E(1) E(3)]) (simp add: E(4))
  next
    case False
    then show ?thesis
      by (intro Map_counted_upd [OF that E(1) E(3)]) (simp add: E(4) chain_erase_absent)
  qed
qed

lemma Map_Erase_Find:
  assumes "Map_Erase H k m = Inr (b, m')" and "Map_wf m" and "Map_nodup m"
  shows "Map_Find H k' m' = (if k' = k then Inr None else Map_Find H k' m)"
proof -
  note E = Map_Erase_Inr [OF assms(1)]
  have "distinct (map key (data_m m ! Map_slot H m k))"
    using assms(3) E(1) by (simp add: Map_nodup_def)
  then show ?thesis
    using E(2,3) assms(2)
    by (auto simp: Map_Find_upd Map_Find_wf chain_erase_find_same chain_erase_find_other)
qed

lemma Map_Erase_ret:
  assumes "Map_Erase H k m = Inr (b, m')" and "Map_wf m"
  shows "b = (Map_Contains H k m = Inr True)"
  using Map_Erase_Inr(5) [OF assms(1)] assms(2) by (auto simp: Map_Contains_wf)

lemma Map_Erase_absent:
  assumes "Map_Contains H k m = Inr False"
  shows "Map_Erase H k m = Inr (False, m)"
  using assms
  by (auto simp: Map_Contains_def Map_Erase_def chain_contains_iff chain_erase_absent
        chain_erase_ret case_prod_beta split: sum.splits)

subsection \<open>The constructor\<close>

lemma Map_init_wf: "sz \<noteq> 0 \<Longrightarrow> Map_wf (Map_init sz)"
  by (simp add: Map_wf_def Map_init_def)

lemma Map_init_inv: "sz \<noteq> 0 \<Longrightarrow> Map_inv H (Map_init sz)"
  by (simp add: Map_inv_def Map_wf_def Map_nodup_def Map_placed_def Map_counted_def
        Map_nodes_def Map_init_def)

lemma Map_init_Find: "sz \<noteq> 0 \<Longrightarrow> Map_Find H k (Map_init sz) = Inr None"
  using slot_less [of sz "H k"]
  by (simp add: Map_Find_wf Map_init_wf) (simp add: Map_init_def Map_slot_def)

subsection \<open>Contains after a call\<close>

lemma Map_Insert_Contains:
  assumes "Map_Insert H k k v r m = Inr (b, m')" and "Map_wf m"
  shows "Map_Contains H k' m' = (if k' = k then Inr True else Map_Contains H k' m)"
  using Map_Insert_Find [OF assms, of k'] Map_Contains_Find [of H k m]
  by (auto simp: Map_Contains_Find [of H k' m'] Map_Contains_Find [of H k' m] split: if_splits)

lemma Map_Erase_Contains:
  assumes "Map_Erase H k m = Inr (b, m')" and "Map_wf m" and "Map_nodup m"
  shows "Map_Contains H k' m' = (if k' = k then Inr False else Map_Contains H k' m)"
  using Map_Erase_Find [OF assms, of k']
  by (auto simp: Map_Contains_Find [of H k' m'] Map_Contains_Find [of H k' m] split: if_splits)

subsection \<open>Sequences of calls\<close>

lemma Map_run_snoc:
  "Map_run H (cs @ [c]) m =
     (case Map_run H cs m of Inl f \<Rightarrow> Inl f
      | Inr (rs, m') \<Rightarrow>
          (case Map_call H c m' of Inl f \<Rightarrow> Inl f
           | Inr (r, m'') \<Rightarrow> Inr (rs @ [r], m'')))"
  by (induction cs arbitrary: m) (auto split: sum.splits prod.splits)

lemma Map_call_defined:
  assumes "Map_wf m"
  shows "\<exists>r m'. Map_call H c m = Inr (r, m')"
proof (cases c)
  case (Insert_call k v rep)
  obtain b m' where "Map_Insert H k k v rep m = Inr (b, m')"
    using Map_Insert_defined [OF assms, of H k k v rep] by blast
  then show ?thesis by (simp add: Insert_call)
next
  case (Erase_call k)
  obtain b m' where "Map_Erase H k m = Inr (b, m')"
    using Map_Erase_defined [OF assms, of H k] by blast
  then show ?thesis by (simp add: Erase_call)
next
  case (Contains_call k)
  then show ?thesis using assms by (simp add: Map_Contains_wf)
next
  case (Find_call k)
  then show ?thesis using assms by (simp add: Map_Find_wf)
qed

lemma Map_call_inv:
  assumes "Map_call H c m = Inr (r, m')"
  shows "Map_wf m \<Longrightarrow> Map_wf m'"
    and "Map_nodup m \<Longrightarrow> Map_nodup m'"
    and "Map_placed H m \<Longrightarrow> Map_placed H m'"
    and "Map_counted m \<Longrightarrow> Map_counted m'"
  using assms
  by (cases c; auto split: sum.splits dest: Map_Insert_inv Map_Erase_inv)+

lemma Map_call_live:
  assumes "Map_call H c m = Inr (r, m')" and "Map_wf m" and "Map_nodup m"
    and "Map_Contains H k m = Inr (spec_live k h)"
  shows "Map_Contains H k m' = Inr (spec_live k ((c, r) # h))"
proof (cases c)
  case (Insert_call k' v rep)
  then obtain b where b: "Map_Insert H k' k' v rep m = Inr (b, m')" "r = Bool_ret b"
    using assms(1) by (auto split: sum.splits)
  show ?thesis
    using Map_Insert_Contains [OF b(1) assms(2), of k] Map_Insert_ret [OF b(1) assms(2)] assms(4) b(2)
    by (auto simp: Insert_call)
next
  case (Erase_call k')
  then obtain b where b: "Map_Erase H k' m = Inr (b, m')" "r = Bool_ret b"
    using assms(1) by (auto split: sum.splits)
  show ?thesis
    using Map_Erase_Contains [OF b(1) assms(2,3), of k] assms(4)
    by (auto simp: Erase_call)
next
  case (Contains_call k')
  then show ?thesis using assms(1,4) by (auto split: sum.splits)
next
  case (Find_call k')
  then show ?thesis using assms(1,4) by (auto split: sum.splits)
qed

lemma Map_run_live:
  assumes "sz \<noteq> 0"
  shows "\<exists>rs m. Map_run H cs (Map_init sz) = Inr (rs, m) \<and> length rs = length cs
           \<and> Map_inv H m \<and> (\<forall>k. Map_Contains H k m = Inr (spec_live k (rev (zip cs rs))))"
proof (induction cs rule: rev_induct)
  case Nil
  show ?case
    using assms by (simp add: Map_init_inv Map_Contains_Find Map_init_Find)
next
  case (snoc c cs)
  then obtain rs m where run: "Map_run H cs (Map_init sz) = Inr (rs, m)"
    and len: "length rs = length cs" and inv: "Map_inv H m"
    and live: "\<forall>k. Map_Contains H k m = Inr (spec_live k (rev (zip cs rs)))"
    by blast
  from inv have wf: "Map_wf m" and nd: "Map_nodup m" and pl: "Map_placed H m"
    and ct: "Map_counted m"
    by (simp_all add: Map_inv_def)
  obtain r m' where call: "Map_call H c m = Inr (r, m')"
    using Map_call_defined [OF wf] by blast
  have "Map_run H (cs @ [c]) (Map_init sz) = Inr (rs @ [r], m')"
    by (simp add: Map_run_snoc run call)
  moreover have "length (rs @ [r]) = length (cs @ [c])" by (simp add: len)
  moreover have "Map_inv H m'"
    using Map_call_inv [OF call] wf nd pl ct by (simp add: Map_inv_def)
  moreover have "Map_Contains H k m' = Inr (spec_live k (rev (zip (cs @ [c]) (rs @ [r]))))" for k
    using Map_call_live [OF call wf nd live [rule_format, of k]] by (simp add: len)
  ultimately show ?case by blast
qed

subsection \<open>All nodes of a table\<close>

lemma chain_find_concat:
  "i < length bs \<Longrightarrow> \<forall>j < length bs. j \<noteq> i \<longrightarrow> k \<notin> set (map key (bs ! j))
     \<Longrightarrow> chain_find k (concat bs) = chain_find k (bs ! i)"
proof (induction bs arbitrary: i)
  case Nil
  then show ?case by simp
next
  case (Cons b bs)
  show ?case
  proof (cases i)
    case 0
    have "k \<notin> set (map key (concat bs))"
    proof
      assume "k \<in> set (map key (concat bs))"
      then obtain c where c: "c \<in> set bs" "k \<in> set (map key c)" by auto
      then obtain j where "j < length bs" "bs ! j = c" by (auto simp: in_set_conv_nth)
      with Cons.prems(2) [rule_format, of "Suc j"] 0 c(2) show False by simp
    qed
    then have "chain_find k (concat bs) = None" by (simp add: chain_find_None_iff)
    then show ?thesis by (simp add: 0 chain_find_append split: option.splits)
  next
    case (Suc i')
    have "k \<notin> set (map key b)" using Cons.prems(2) [rule_format, of 0] Suc by simp
    then have b: "chain_find k b = None" by (simp add: chain_find_None_iff)
    have "chain_find k (concat bs) = chain_find k (bs ! i')"
    proof (rule Cons.IH)
      show "i' < length bs" using Cons.prems(1) Suc by simp
      show "\<forall>j<length bs. j \<noteq> i' \<longrightarrow> k \<notin> set (map key (bs ! j))"
        using Cons.prems(2) [rule_format, of "Suc j" for j] Suc by auto
    qed
    then show ?thesis by (simp add: Suc chain_find_append b)
  qed
qed

lemma distinct_concat_placed:
  "\<forall>i < length bs. distinct (map key (bs ! i)) \<Longrightarrow>
   \<forall>i < length bs. \<forall>n \<in> set (bs ! i). f (key n) = off + i
     \<Longrightarrow> distinct (map key (concat bs))"
proof (induction bs arbitrary: off)
  case Nil
  then show ?case by simp
next
  case (Cons b bs)
  have b: "distinct (map key b)" using Cons.prems(1) [rule_format, of 0] by simp
  have fb: "\<forall>n \<in> set b. f (key n) = off" using Cons.prems(2) [rule_format, of 0] by simp
  have rest: "distinct (map key (concat bs))"
  proof (rule Cons.IH [of "Suc off"])
    show "\<forall>i<length bs. distinct (map key (bs ! i))"
      using Cons.prems(1) [rule_format, of "Suc i" for i] by auto
    show "\<forall>i<length bs. \<forall>n\<in>set (bs ! i). f (key n) = Suc off + i"
      using Cons.prems(2) [rule_format, of "Suc i" for i] by auto
  qed
  have "f (key n) \<noteq> off" if "n \<in> set (concat bs)" for n
  proof -
    from that obtain c where c: "c \<in> set bs" "n \<in> set c" by auto
    then obtain j where "j < length bs" "bs ! j = c" by (auto simp: in_set_conv_nth)
    with Cons.prems(2) [rule_format, of "Suc j" n] c(2) show ?thesis by simp
  qed
  with fb have "set (map key b) \<inter> set (map key (concat bs)) = {}" by fastforce
  with b rest show ?case by simp
qed

lemma Map_distinct_keys:
  assumes "Map_nodup m" and "Map_placed H m"
  shows "distinct (map key (concat (data_m m)))"
proof (rule distinct_concat_placed [where f = "Map_slot H m" and off = 0])
  show "\<forall>i<length (data_m m). distinct (map key (data_m m ! i))"
    using assms(1) by (simp add: Map_nodup_def)
  show "\<forall>i<length (data_m m). \<forall>n\<in>set (data_m m ! i). Map_slot H m (key n) = 0 + i"
    using assms(2) by (simp add: Map_placed_def)
qed

lemma Map_Find_concat:
  assumes "Map_wf m" and "Map_placed H m"
  shows "Map_Find H k m = Inr (chain_find k (concat (data_m m)))"
proof -
  have "chain_find k (concat (data_m m)) = chain_find k (data_m m ! Map_slot H m k)"
  proof (rule chain_find_concat)
    show "Map_slot H m k < length (data_m m)" using assms(1) by (rule Map_slot_less)
    show "\<forall>j<length (data_m m). j \<noteq> Map_slot H m k \<longrightarrow> k \<notin> set (map key (data_m m ! j))"
      using assms(2) by (auto simp: Map_placed_def)
  qed
  then show ?thesis using assms(1) by (simp add: Map_Find_wf)
qed

lemma Map_keys_Contains:
  assumes "Map_wf m" and "Map_placed H m"
  shows "(k \<in> Map_keys m) = (Map_Contains H k m = Inr True)"
proof -
  have "(k \<in> Map_keys m) = (chain_find k (concat (data_m m)) \<noteq> None)"
    unfolding Map_keys_def chain_find_None_iff by simp
  then show ?thesis
    using Map_Find_concat [OF assms, of k] by (simp add: Map_Contains_Find)
qed

lemma Map_card_keys:
  assumes "Map_nodup m" and "Map_placed H m"
  shows "card (Map_keys m) = Map_nodes m"
  using distinct_card [OF Map_distinct_keys [OF assms]]
  by (simp add: Map_keys_def Map_nodes_def)

subsection \<open>The fresh table\<close>

lemma Map_init_Contains: "sz \<noteq> 0 \<Longrightarrow> Map_Contains H k (Map_init sz) = Inr False"
  by (simp add: Map_Contains_Find Map_init_Find)

lemma Map_init_nodes: "Map_nodes (Map_init sz) = 0"
  by (simp add: Map_nodes_def Map_init_def)

section \<open>Properties of the Set\<close>

subsection \<open>Chains of values\<close>

lemma set_chain_contains_iff: "set_chain_contains x c = (x \<in> set c)"
  by (induction c) auto

lemma set_chain_insert_fst:
  "fst (set_chain_insert nv x c) = (if x \<in> set c then c else c @ [nv])"
  by (induction c) (auto split: prod.splits)

lemma set_chain_insert_inc: "snd (set_chain_insert nv x c) = (x \<notin> set c)"
  by (induction c) (auto split: prod.splits)

lemma set_chain_erase_fst: "fst (set_chain_erase x c) = remove1 x c"
  by (induction c) (auto split: prod.splits)

lemma set_chain_erase_ret: "snd (set_chain_erase x c) = (x \<in> set c)"
  by (induction c) (auto split: prod.splits)

subsection \<open>Buckets of the Set\<close>

lemma Set_bucket_wf: "Set_wf s \<Longrightarrow> Set_bucket H s x = Inr (Set_slot H s x)"
  by (simp add: Set_wf_def Set_bucket_def Set_slot_def Let_def slot_less)

lemma Set_slot_less: "Set_wf s \<Longrightarrow> Set_slot H s x < length (data_s s)"
  by (simp add: Set_wf_def Set_slot_def slot_less)

lemma Set_bucket_Inr:
  "Set_bucket H s x = Inr h \<Longrightarrow> h = Set_slot H s x \<and> h < length (data_s s) \<and> size_s s \<noteq> 0"
  by (auto simp: Set_bucket_def Set_slot_def Let_def split: if_splits)

lemma Set_wf_upd:
  "Set_wf s \<Longrightarrow> size_s s' = size_s s \<Longrightarrow> data_s s' = (data_s s)[h := c] \<Longrightarrow> Set_wf s'"
  by (simp add: Set_wf_def)

lemma Set_nodup_upd:
  "Set_nodup s \<Longrightarrow> data_s s' = (data_s s)[h := c] \<Longrightarrow> distinct c \<Longrightarrow> Set_nodup s'"
  by (auto simp: Set_nodup_def dest!: set_update_subset_insert [THEN subsetD])

lemma Set_placed_upd:
  "Set_placed H s \<Longrightarrow> size_s s' = size_s s \<Longrightarrow> data_s s' = (data_s s)[h := c]
     \<Longrightarrow> \<forall>x \<in> set c. Set_slot H s x = h \<Longrightarrow> Set_placed H s'"
  by (cases "h < length (data_s s)") (auto simp: Set_placed_def Set_slot_def nth_list_update)

lemma Set_counted_upd:
  assumes "Set_counted s" and "h < length (data_s s)" and "data_s s' = (data_s s)[h := c]"
    and "(length c = length (data_s s ! h) \<and> count_s s' = count_s s)
       \<or> (length c = Suc (length (data_s s ! h)) \<and> count_s s' = count_s s + 1)
       \<or> (Suc (length c) = length (data_s s ! h) \<and> count_s s' = count_s s - 1)"
  shows "Set_counted s'"
proof -
  have eq: "Set_nodes s' + length (data_s s ! h) = Set_nodes s + length c"
    using assms(2,3) by (simp add: Set_nodes_def length_concat_update)
  from assms(4) consider
      (same) "length c = length (data_s s ! h)" "count_s s' = count_s s"
    | (inc) "length c = Suc (length (data_s s ! h))" "count_s s' = count_s s + 1"
    | (dec) "Suc (length c) = length (data_s s ! h)" "count_s s' = count_s s - 1"
    by blast
  then show ?thesis
  proof cases
    case same
    with eq have "Set_nodes s' = Set_nodes s" by simp
    with same assms(1) show ?thesis by (simp add: Set_counted_def)
  next
    case inc
    with eq have "Set_nodes s' = Suc (Set_nodes s)" by simp
    with inc assms(1) show ?thesis by (simp add: Set_counted_def)
  next
    case dec
    with eq have "Set_nodes s = Suc (Set_nodes s')" by simp
    with dec assms(1) show ?thesis by (simp add: Set_counted_def)
  qed
qed

lemma Set_Contains_wf:
  "Set_wf s \<Longrightarrow> Set_Contains H x s = Inr (x \<in> set (data_s s ! Set_slot H s x))"
  by (simp add: Set_Contains_def Set_bucket_wf set_chain_contains_iff)

lemma Set_Contains_upd:
  assumes "Set_wf s" and "size_s s' = size_s s" and "data_s s' = (data_s s)[h := c]"
  shows "Set_Contains H x s' =
       Inr (if Set_slot H s x = h then x \<in> set c else x \<in> set (data_s s ! Set_slot H s x))"
proof -
  have "Set_wf s'" using assms by (rule Set_wf_upd)
  moreover have "Set_slot H s' x = Set_slot H s x" using assms(2) by (simp add: Set_slot_def)
  ultimately show ?thesis
    using Set_slot_less [OF assms(1), of H x] assms(3) by (simp add: Set_Contains_wf)
qed

subsection \<open>Set::Insert\<close>

lemma Set_Insert_Inr:
  assumes "Set_Insert H nv x s = Inr (u, s')"
  shows "Set_slot H s x < length (data_s s)"
    and "size_s s' = size_s s"
    and "data_s s' = (data_s s)[Set_slot H s x :=
            fst (set_chain_insert nv x (data_s s ! Set_slot H s x))]"
    and "count_s s' = (if x \<in> set (data_s s ! Set_slot H s x) then count_s s else count_s s + 1)"
  using assms
  by (auto simp: Set_Insert_def case_prod_beta set_chain_insert_inc
           split: sum.splits dest!: Set_bucket_Inr)

lemma Set_Insert_defined:
  "Set_wf s \<Longrightarrow> \<exists>s'. Set_Insert H nv x s = Inr ((), s')"
  by (simp add: Set_Insert_def Set_bucket_wf case_prod_beta)

lemma set_chain_insert_length:
  "length (fst (set_chain_insert nv x c)) = (if x \<in> set c then length c else Suc (length c))"
  by (simp add: set_chain_insert_fst)

lemma set_chain_insert_distinct:
  "distinct c \<Longrightarrow> distinct (fst (set_chain_insert x x c))"
  by (simp add: set_chain_insert_fst)

lemma set_chain_insert_subset:
  "set (fst (set_chain_insert x x c)) \<subseteq> insert x (set c)"
  by (auto simp: set_chain_insert_fst)

text \<open>Whatever the node receives, the table stays well formed and counted.\<close>

lemma Set_Insert_counted:
  assumes "Set_Insert H nv x s = Inr (u, s')"
  shows "Set_wf s \<Longrightarrow> Set_wf s'"
    and "Set_counted s \<Longrightarrow> Set_counted s'"
proof -
  note I = Set_Insert_Inr [OF assms]
  show "Set_wf s'" if "Set_wf s"
    using that I(2,3) by (rule Set_wf_upd)
  show "Set_counted s'" if "Set_counted s"
    by (rule Set_counted_upd [OF that I(1) I(3)]) (simp add: I(4) set_chain_insert_length)
qed

text \<open>An argument that the node only copied.\<close>

lemma Set_Insert_inv:
  assumes "Set_Insert H x x s = Inr (u, s')"
  shows "Set_nodup s \<Longrightarrow> Set_nodup s'"
    and "Set_placed H s \<Longrightarrow> Set_placed H s'"
proof -
  let ?h = "Set_slot H s x"
  let ?c = "fst (set_chain_insert x x (data_s s ! ?h))"
  note I = Set_Insert_Inr [OF assms]
  show "Set_nodup s'" if "Set_nodup s"
  proof -
    have "distinct (data_s s ! ?h)" using that I(1) by (simp add: Set_nodup_def)
    then have "distinct ?c" by (rule set_chain_insert_distinct)
    with that I(3) show ?thesis by (rule Set_nodup_upd)
  qed
  show "Set_placed H s'" if "Set_placed H s"
  proof -
    have "Set_slot H s y = ?h" if y: "y \<in> set ?c" for y
    proof (cases "y = x")
      case True
      then show ?thesis by simp
    next
      case False
      with y set_chain_insert_subset [of x "data_s s ! ?h"] have "y \<in> set (data_s s ! ?h)"
        by blast
      with \<open>Set_placed H s\<close> I(1) show ?thesis by (simp add: Set_placed_def)
    qed
    then have "\<forall>y \<in> set ?c. Set_slot H s y = ?h" by blast
    with that I(2,3) show ?thesis by (rule Set_placed_upd)
  qed
qed




subsection \<open>Set::Erase\<close>

lemma Set_Erase_Inr:
  assumes "Set_Erase H x s = Inr (b, s')"
  shows "Set_slot H s x < length (data_s s)"
    and "size_s s' = size_s s"
    and "data_s s' = (data_s s)[Set_slot H s x := remove1 x (data_s s ! Set_slot H s x)]"
    and "count_s s' = (if x \<in> set (data_s s ! Set_slot H s x) then count_s s - 1 else count_s s)"
    and "b = (x \<in> set (data_s s ! Set_slot H s x))"
  using assms
  by (auto simp: Set_Erase_def case_prod_beta set_chain_erase_fst set_chain_erase_ret
           split: sum.splits dest!: Set_bucket_Inr)

lemma Set_Erase_defined:
  "Set_wf s \<Longrightarrow> \<exists>b s'. Set_Erase H x s = Inr (b, s')"
  by (simp add: Set_Erase_def Set_bucket_wf case_prod_beta)

lemma Set_Erase_inv:
  assumes "Set_Erase H x s = Inr (b, s')"
  shows "Set_wf s \<Longrightarrow> Set_wf s'"
    and "Set_nodup s \<Longrightarrow> Set_nodup s'"
    and "Set_placed H s \<Longrightarrow> Set_placed H s'"
    and "Set_counted s \<Longrightarrow> Set_counted s'"
proof -
  let ?h = "Set_slot H s x"
  note E = Set_Erase_Inr [OF assms]
  show "Set_wf s'" if "Set_wf s"
    using that E(2,3) by (rule Set_wf_upd)
  show "Set_nodup s'" if "Set_nodup s"
  proof -
    have "distinct (data_s s ! ?h)" using that E(1) by (simp add: Set_nodup_def)
    then have "distinct (remove1 x (data_s s ! ?h))" by simp
    with that E(3) show ?thesis by (rule Set_nodup_upd)
  qed
  show "Set_placed H s'" if "Set_placed H s"
  proof -
    have "\<forall>y \<in> set (remove1 x (data_s s ! ?h)). Set_slot H s y = ?h"
      using that E(1) by (auto simp: Set_placed_def dest: notin_set_remove1)
    with that E(2,3) show ?thesis by (rule Set_placed_upd)
  qed
  show "Set_counted s'" if "Set_counted s"
  proof (cases "x \<in> set (data_s s ! ?h)")
    case True
    then have "Suc (length (remove1 x (data_s s ! ?h))) = length (data_s s ! ?h)"
      using length_pos_if_in_set [OF True] by (simp add: length_remove1)
    with True show ?thesis
      by (intro Set_counted_upd [OF that E(1) E(3)]) (simp add: E(4))
  next
    case False
    then show ?thesis
      by (intro Set_counted_upd [OF that E(1) E(3)]) (simp add: E(4) remove1_idem)
  qed
qed

lemma Set_Erase_Contains:
  assumes "Set_Erase H x s = Inr (b, s')" and "Set_wf s" and "Set_nodup s"
  shows "Set_Contains H y s' = (if y = x then Inr False else Set_Contains H y s)"
proof -
  note E = Set_Erase_Inr [OF assms(1)]
  have "distinct (data_s s ! Set_slot H s x)"
    using assms(3) E(1) by (simp add: Set_nodup_def)
  then show ?thesis
    using E(2,3) assms(2)
    by (auto simp: Set_Contains_upd Set_Contains_wf)
qed

lemma Set_Erase_ret:
  assumes "Set_Erase H x s = Inr (b, s')" and "Set_wf s"
  shows "b = (Set_Contains H x s = Inr True)"
  using Set_Erase_Inr(5) [OF assms(1)] assms(2) by (auto simp: Set_Contains_wf)

lemma Set_Erase_absent:
  assumes "Set_Contains H x s = Inr False"
  shows "Set_Erase H x s = Inr (False, s)"
  using assms
  by (auto simp: Set_Contains_def Set_Erase_def set_chain_contains_iff set_chain_erase_fst
        set_chain_erase_ret remove1_idem case_prod_beta split: sum.splits)

subsection \<open>The constructor of the Set\<close>

lemma Set_init_wf: "sz \<noteq> 0 \<Longrightarrow> Set_wf (Set_init sz)"
  by (simp add: Set_wf_def Set_init_def)

lemma Set_init_inv: "sz \<noteq> 0 \<Longrightarrow> Set_inv H (Set_init sz)"
  by (simp add: Set_inv_def Set_wf_def Set_nodup_def Set_placed_def Set_counted_def
        Set_nodes_def Set_init_def)

lemma Set_init_Contains: "sz \<noteq> 0 \<Longrightarrow> Set_Contains H x (Set_init sz) = Inr False"
  using slot_less [of sz "H x"]
  by (simp add: Set_Contains_wf Set_init_wf) (simp add: Set_init_def Set_slot_def)

lemma Set_init_nodes: "Set_nodes (Set_init sz) = 0"
  by (simp add: Set_nodes_def Set_init_def)

subsection \<open>All nodes of a Set\<close>

lemma distinct_concat_slots:
  "\<forall>i < length bs. distinct (bs ! i) \<Longrightarrow>
   \<forall>i < length bs. \<forall>x \<in> set (bs ! i). f x = off + i
     \<Longrightarrow> distinct (concat bs)"
proof (induction bs arbitrary: off)
  case Nil
  then show ?case by simp
next
  case (Cons b bs)
  have b: "distinct b" using Cons.prems(1) [rule_format, of 0] by simp
  have fb: "\<forall>x \<in> set b. f x = off" using Cons.prems(2) [rule_format, of 0] by simp
  have rest: "distinct (concat bs)"
  proof (rule Cons.IH [of "Suc off"])
    show "\<forall>i<length bs. distinct (bs ! i)"
      using Cons.prems(1) [rule_format, of "Suc i" for i] by auto
    show "\<forall>i<length bs. \<forall>x\<in>set (bs ! i). f x = Suc off + i"
      using Cons.prems(2) [rule_format, of "Suc i" for i] by auto
  qed
  have "f x \<noteq> off" if "x \<in> set (concat bs)" for x
  proof -
    from that obtain c where c: "c \<in> set bs" "x \<in> set c" by auto
    then obtain j where "j < length bs" "bs ! j = c" by (auto simp: in_set_conv_nth)
    with Cons.prems(2) [rule_format, of "Suc j" x] c(2) show ?thesis by simp
  qed
  with fb have "set b \<inter> set (concat bs) = {}" by fastforce
  with b rest show ?case by simp
qed

lemma Set_distinct_values:
  assumes "Set_nodup s" and "Set_placed H s"
  shows "distinct (concat (data_s s))"
proof (rule distinct_concat_slots [where f = "Set_slot H s" and off = 0])
  show "\<forall>i<length (data_s s). distinct (data_s s ! i)"
    using assms(1) by (simp add: Set_nodup_def)
  show "\<forall>i<length (data_s s). \<forall>x\<in>set (data_s s ! i). Set_slot H s x = 0 + i"
    using assms(2) by (simp add: Set_placed_def)
qed

lemma Set_values_Contains:
  assumes "Set_wf s" and "Set_placed H s"
  shows "(x \<in> Set_values s) = (Set_Contains H x s = Inr True)"
proof -
  have "(x \<in> Set_values s) = (\<exists>c \<in> set (data_s s). x \<in> set c)"
    by (simp add: Set_values_def)
  also have "\<dots> = (\<exists>i < length (data_s s). x \<in> set (data_s s ! i))"
    by (metis in_set_conv_nth)
  also have "\<dots> = (x \<in> set (data_s s ! Set_slot H s x))"
    using assms(2) Set_slot_less [OF assms(1), of H x] by (auto simp: Set_placed_def)
  finally show ?thesis using assms(1) by (simp add: Set_Contains_wf)
qed

lemma Set_card_values:
  assumes "Set_nodup s" and "Set_placed H s"
  shows "card (Set_values s) = Set_nodes s"
  using distinct_card [OF Set_distinct_values [OF assms]]
  by (simp add: Set_values_def Set_nodes_def)

subsection \<open>The invariants along the operations\<close>

lemma Map_Size_keys:
  assumes "Map_inv H m"
  shows "Map_Size m = of_nat (card {k. Map_Contains H k m = Inr True})"
    and "Map_nodes m < 2 ^ 64 \<Longrightarrow> unat (Map_Size m) = card {k. Map_Contains H k m = Inr True}"
proof -
  from assms have wf: "Map_wf m" and nd: "Map_nodup m" and pl: "Map_placed H m"
    and ct: "Map_counted m"
    by (simp_all add: Map_inv_def)
  have "{k. Map_Contains H k m = Inr True} = Map_keys m"
    using Map_keys_Contains [OF wf pl] by blast
  then have card: "card {k. Map_Contains H k m = Inr True} = Map_nodes m"
    using Map_card_keys [OF nd pl] by simp
  show "Map_Size m = of_nat (card {k. Map_Contains H k m = Inr True})"
    using ct by (simp add: card Map_counted_def Map_Size_def)
  show "unat (Map_Size m) = card {k. Map_Contains H k m = Inr True}" if "Map_nodes m < 2 ^ 64"
    using ct that by (simp add: card Map_counted_def Map_Size_def unat_of_nat)
qed

lemma Map_inv_preserved:
  assumes "Map_inv H m"
  shows "\<exists>b m'. Map_Insert H k k v r m = Inr (b, m') \<and> Map_inv H m'"
    and "\<exists>b m'. Map_Erase H k m = Inr (b, m') \<and> Map_inv H m'"
proof -
  from assms have wf: "Map_wf m" by (simp add: Map_inv_def)
  show "\<exists>b m'. Map_Insert H k k v r m = Inr (b, m') \<and> Map_inv H m'"
    using Map_Insert_defined [OF wf, of H k k v r] Map_Insert_inv [of H k v r m] assms
    by (fastforce simp: Map_inv_def)
  show "\<exists>b m'. Map_Erase H k m = Inr (b, m') \<and> Map_inv H m'"
    using Map_Erase_defined [OF wf, of H k] Map_Erase_inv [of H k m] assms
    by (fastforce simp: Map_inv_def)
qed

lemma Set_Size_values:
  assumes "Set_inv H s"
  shows "Set_Size s = of_nat (card {x. Set_Contains H x s = Inr True})"
    and "Set_nodes s < 2 ^ 64 \<Longrightarrow> unat (Set_Size s) = card {x. Set_Contains H x s = Inr True}"
proof -
  from assms have wf: "Set_wf s" and nd: "Set_nodup s" and pl: "Set_placed H s"
    and ct: "Set_counted s"
    by (simp_all add: Set_inv_def)
  have "{x. Set_Contains H x s = Inr True} = Set_values s"
    using Set_values_Contains [OF wf pl] by blast
  then have card: "card {x. Set_Contains H x s = Inr True} = Set_nodes s"
    using Set_card_values [OF nd pl] by simp
  show "Set_Size s = of_nat (card {x. Set_Contains H x s = Inr True})"
    using ct by (simp add: card Set_counted_def Set_Size_def)
  show "unat (Set_Size s) = card {x. Set_Contains H x s = Inr True}" if "Set_nodes s < 2 ^ 64"
    using ct that by (simp add: card Set_counted_def Set_Size_def unat_of_nat)
qed

text \<open>
  \<open>Insert\<close> keeps the invariants when the hash and the walk read the key (for the
  Set, the value) that the node received.
\<close>

lemma Set_inv_preserved:
  assumes "Set_inv H s"
  shows "\<exists>s'. Set_Insert H x x s = Inr ((), s') \<and> Set_inv H s'"
    and "\<exists>b s'. Set_Erase H x s = Inr (b, s') \<and> Set_inv H s'"
proof -
  from assms have wf: "Set_wf s" by (simp add: Set_inv_def)
  show "\<exists>s'. Set_Insert H x x s = Inr ((), s') \<and> Set_inv H s'"
    using Set_Insert_defined [OF wf, of H x x] Set_Insert_inv [of H x s]
      Set_Insert_counted [of H x x s] assms
    by (fastforce simp: Set_inv_def)
  show "\<exists>b s'. Set_Erase H x s = Inr (b, s') \<and> Set_inv H s'"
    using Set_Erase_defined [OF wf, of H x] Set_Erase_inv [of H x s] assms
    by (fastforce simp: Set_inv_def)
qed

section \<open>Further properties\<close>

subsection \<open>Erase of a present key\<close>

lemma Map_Erase_nodes:
  assumes "Map_Erase H k m = Inr (True, m')"
  shows "Suc (Map_nodes m') = Map_nodes m"
proof -
  note E = Map_Erase_Inr [OF assms]
  have "Map_nodes m' + length (data_m m ! Map_slot H m k)
          = Map_nodes m + length (fst (chain_erase k (data_m m ! Map_slot H m k)))"
    using E(1,3) by (simp add: Map_nodes_def length_concat_update)
  then show ?thesis using chain_erase_length [of k "data_m m ! Map_slot H m k"] E(5) by simp
qed

lemma Set_Erase_nodes:
  assumes "Set_Erase H x s = Inr (True, s')"
  shows "Suc (Set_nodes s') = Set_nodes s"
proof -
  note E = Set_Erase_Inr [OF assms]
  have "Set_nodes s' + length (data_s s ! Set_slot H s x)
          = Set_nodes s + length (remove1 x (data_s s ! Set_slot H s x))"
    using E(1,3) by (simp add: Set_nodes_def length_concat_update)
  moreover have "0 < length (data_s s ! Set_slot H s x)"
    using E(5) by auto
  moreover have "length (remove1 x (data_s s ! Set_slot H s x))
                   = length (data_s s ! Set_slot H s x) - 1"
    using E(5) by (simp add: length_remove1)
  ultimately show ?thesis by arith
qed

lemma counted_unat:
  "c = (word_of_nat n :: u64) \<Longrightarrow> n < 2 ^ 64 \<Longrightarrow> unat c = n"
  by (simp add: unat_of_nat)

lemma Map_Erase_present:
  assumes "Map_wf m" and "Map_nodup m" and "Map_Contains H k m = Inr True"
  shows "\<exists>m'. Map_Erase H k m = Inr (True, m') \<and> Map_Size m' = Map_Size m - 1
           \<and> Suc (Map_nodes m') = Map_nodes m
           \<and> (Map_counted m \<and> Map_nodes m < 2 ^ 64 \<longrightarrow> unat (Map_Size m') + 1 = unat (Map_Size m))
           \<and> Map_Contains H k m' = Inr False
           \<and> (\<forall>k'. k' \<noteq> k \<longrightarrow> Map_Find H k' m' = Map_Find H k' m)
           \<and> Map_Erase H k m' = Inr (False, m')"
proof -
  obtain b m' where e: "Map_Erase H k m = Inr (b, m')"
    using Map_Erase_defined [OF assms(1), of H k] by blast
  have b: "b = True" using Map_Erase_ret [OF e assms(1)] assms(3) by simp
  note E = Map_Erase_Inr [OF e]
  have size: "Map_Size m' = Map_Size m - 1"
    using E(4,5) b by (simp add: Map_Size_def)
  have nodes: "Suc (Map_nodes m') = Map_nodes m" using Map_Erase_nodes [OF e [unfolded b]] .
  have c': "Map_Contains H k m' = Inr False"
    using Map_Erase_Contains [OF e assms(1,2), of k] by simp
  have others: "\<forall>k'. k' \<noteq> k \<longrightarrow> Map_Find H k' m' = Map_Find H k' m"
    using Map_Erase_Find [OF e assms(1,2)] by simp
  have again: "Map_Erase H k m' = Inr (False, m')" using c' by (rule Map_Erase_absent)
  have "unat (Map_Size m') + 1 = unat (Map_Size m)" if "Map_counted m" "Map_nodes m < 2 ^ 64"
  proof -
    have "Map_counted m'" using Map_Erase_inv(4) [OF e that(1)] .
    then have "unat (Map_Size m') = Map_nodes m'"
      using nodes that(2) by (intro counted_unat) (simp_all add: Map_counted_def Map_Size_def)
    moreover have "unat (Map_Size m) = Map_nodes m"
      using that by (intro counted_unat) (simp_all add: Map_counted_def Map_Size_def)
    ultimately show ?thesis using nodes by simp
  qed
  with e b size nodes c' others again show ?thesis by blast
qed

lemma Set_Erase_present:
  assumes "Set_wf s" and "Set_nodup s" and "Set_Contains H x s = Inr True"
  shows "\<exists>s'. Set_Erase H x s = Inr (True, s') \<and> Set_Size s' = Set_Size s - 1
           \<and> Suc (Set_nodes s') = Set_nodes s
           \<and> (Set_counted s \<and> Set_nodes s < 2 ^ 64 \<longrightarrow> unat (Set_Size s') + 1 = unat (Set_Size s))
           \<and> Set_Contains H x s' = Inr False
           \<and> (\<forall>y. y \<noteq> x \<longrightarrow> Set_Contains H y s' = Set_Contains H y s)
           \<and> Set_Erase H x s' = Inr (False, s')"
proof -
  obtain b s' where e: "Set_Erase H x s = Inr (b, s')"
    using Set_Erase_defined [OF assms(1), of H x] by blast
  have b: "b = True" using Set_Erase_ret [OF e assms(1)] assms(3) by simp
  note E = Set_Erase_Inr [OF e]
  have size: "Set_Size s' = Set_Size s - 1"
    using E(4,5) b by (simp add: Set_Size_def)
  have nodes: "Suc (Set_nodes s') = Set_nodes s" using Set_Erase_nodes [OF e [unfolded b]] .
  have c': "Set_Contains H x s' = Inr False"
    using Set_Erase_Contains [OF e assms(1,2), of x] by simp
  have others: "\<forall>y. y \<noteq> x \<longrightarrow> Set_Contains H y s' = Set_Contains H y s"
    using Set_Erase_Contains [OF e assms(1,2)] by simp
  have again: "Set_Erase H x s' = Inr (False, s')" using c' by (rule Set_Erase_absent)
  have "unat (Set_Size s') + 1 = unat (Set_Size s)" if "Set_counted s" "Set_nodes s < 2 ^ 64"
  proof -
    have "Set_counted s'" using Set_Erase_inv(4) [OF e that(1)] .
    then have "unat (Set_Size s') = Set_nodes s'"
      using nodes that(2) by (intro counted_unat) (simp_all add: Set_counted_def Set_Size_def)
    moreover have "unat (Set_Size s) = Set_nodes s"
      using that by (intro counted_unat) (simp_all add: Set_counted_def Set_Size_def)
    ultimately show ?thesis using nodes by simp
  qed
  with e b size nodes c' others again show ?thesis by blast
qed

subsection \<open>The example tables\<close>



subsection \<open>The Map as a standard mapping\<close>

lemma Map_call_spec:
  assumes "Map_inv H m" and "\<forall>k. Map_Find H k m = Inr (f k)"
  shows "\<exists>m'. Map_call H c m = Inr (fst (spec_call c f), m') \<and> Map_inv H m'
           \<and> (\<forall>k. Map_Find H k m' = Inr (snd (spec_call c f) k))"
proof -
  from assms(1) have wf: "Map_wf m" and nd: "Map_nodup m" by (simp_all add: Map_inv_def)
  obtain r m' where call: "Map_call H c m = Inr (r, m')"
    using Map_call_defined [OF wf] by blast
  have inv': "Map_inv H m'"
    using Map_call_inv [OF call] assms(1) by (simp add: Map_inv_def)
  have cont: "Map_Contains H k m = Inr (f k \<noteq> None)" for k
    using assms(2) by (simp add: Map_Contains_Find)
  have "r = fst (spec_call c f) \<and> (\<forall>k. Map_Find H k m' = Inr (snd (spec_call c f) k))"
  proof (cases c)
    case (Insert_call k' v rep)
    then obtain b where b: "Map_Insert H k' k' v rep m = Inr (b, m')" "r = Bool_ret b"
      using call by (auto split: sum.splits)
    show ?thesis
      using Map_Insert_Find [OF b(1) wf] Map_Insert_ret [OF b(1) wf] b(2) assms(2) cont
      by (auto simp: Insert_call)
  next
    case (Erase_call k')
    then obtain b where b: "Map_Erase H k' m = Inr (b, m')" "r = Bool_ret b"
      using call by (auto split: sum.splits)
    show ?thesis
      using Map_Erase_Find [OF b(1) wf nd] Map_Erase_ret [OF b(1) wf] b(2) assms(2) cont
      by (auto simp: Erase_call)
  next
    case (Contains_call k')
    then show ?thesis using call assms(2) cont by (auto split: sum.splits)
  next
    case (Find_call k')
    then show ?thesis using call assms(2) by (auto split: sum.splits)
  qed
  with call inv' show ?thesis by blast
qed

lemma Map_run_spec:
  assumes "Map_inv H m" and "\<forall>k. Map_Find H k m = Inr (f k)"
  shows "\<exists>m'. Map_run H cs m = Inr (fst (spec_run cs f), m') \<and> Map_inv H m'
           \<and> (\<forall>k. Map_Find H k m' = Inr (snd (spec_run cs f) k))"
  using assms
proof (induction cs arbitrary: m f)
  case Nil
  then show ?case by simp
next
  case (Cons c cs)
  obtain m1 where c: "Map_call H c m = Inr (fst (spec_call c f), m1)" and inv1: "Map_inv H m1"
    and f1: "\<forall>k. Map_Find H k m1 = Inr (snd (spec_call c f) k)"
    using Map_call_spec [OF Cons.prems, of c] by blast
  obtain m' where "Map_run H cs m1 = Inr (fst (spec_run cs (snd (spec_call c f))), m')"
    and "Map_inv H m'"
    and "\<forall>k. Map_Find H k m' = Inr (snd (spec_run cs (snd (spec_call c f))) k)"
    using Cons.IH [OF inv1 f1] by blast
  then show ?case using c by (simp add: case_prod_beta)
qed

lemma Map_run_fresh:
  assumes "sz \<noteq> 0"
  shows "\<exists>m'. Map_run H cs (Map_init sz) = Inr (fst (spec_run cs Map.empty), m')"
  using Map_run_spec [OF Map_init_inv [OF assms], of H Map.empty cs] assms
  by (auto simp: Map_init_Find)

subsection \<open>The earlier Map against the Map with \<open>replace = true\<close>\<close>

lemma legacy_chain_find_eq: "legacy_chain_find k c = chain_find k c"
  by (induction c) auto

lemma legacy_chain_contains_eq: "legacy_chain_contains k c = chain_contains k c"
  by (induction c) auto

lemma legacy_chain_insert_eq: "legacy_chain_insert nk k v c = fst (chain_insert nk k v True c)"
  by (induction c) (auto split: prod.splits)

lemma legacy_chain_erase_eq: "legacy_chain_erase k c = chain_erase k c"
  by (induction c) auto

lemma legacy_chain_insert_find: "legacy_chain_find k (legacy_chain_insert k k v c) = Some v"
  by (induction c) auto

lemma LegacyMap_bucket_eq:
  "size_l lm = size_m m \<Longrightarrow> data_l lm = data_m m \<Longrightarrow> LegacyMap_bucket H lm k = Map_bucket H m k"
  by (simp add: LegacyMap_bucket_def Map_bucket_def)

lemma LegacyMap_call_sim:
  assumes "size_l lm = size_m m" and "data_l lm = data_m m"
  shows "rel_sum (=) (\<lambda>(r, lm') (r', m'). ret_agree r r' \<and> size_l lm' = size_m m' \<and> data_l lm' = data_m m')
           (LegacyMap_call H c lm) (Map_call H (with_replace c) m)"
proof (cases c)
  case (LInsert_call k v)
  show ?thesis
    using assms
    by (auto simp: LInsert_call LegacyMap_Insert_def Map_Insert_def LegacyMap_bucket_eq [OF assms]
          legacy_chain_insert_eq case_prod_beta split: sum.splits)
next
  case (LErase_call k)
  show ?thesis
    using assms
    by (auto simp: LErase_call LegacyMap_Erase_def Map_Erase_def LegacyMap_bucket_eq [OF assms]
          legacy_chain_erase_eq case_prod_beta split: sum.splits)
next
  case (LContains_call k)
  show ?thesis
    using assms
    by (auto simp: LContains_call LegacyMap_Contains_def Map_Contains_def
          LegacyMap_bucket_eq [OF assms] legacy_chain_contains_eq split: sum.splits)
next
  case (LFind_call k)
  show ?thesis
    using assms
    by (auto simp: LFind_call LegacyMap_Find_def Map_Find_def
          LegacyMap_bucket_eq [OF assms] legacy_chain_find_eq split: sum.splits)
qed

lemma LegacyMap_run_sim:
  assumes "size_l lm = size_m m" and "data_l lm = data_m m"
  shows "rel_sum (=) (\<lambda>(rs, lm') (rs', m'). list_all2 ret_agree rs rs' \<and> size_l lm' = size_m m' \<and> data_l lm' = data_m m')
           (LegacyMap_run H cs lm) (Map_run H (map with_replace cs) m)"
  using assms
proof (induction cs arbitrary: lm m)
  case Nil
  then show ?case by simp
next
  case (Cons c cs)
  note step = LegacyMap_call_sim [OF Cons.prems, of H c]
  show ?case
  proof (cases "LegacyMap_call H c lm")
    case (Inl f)
    with step show ?thesis by (auto elim: rel_sum.cases)
  next
    case (Inr p)
    obtain r lm1 where p: "p = (r, lm1)" by (cases p)
    from step Inr p obtain r' m1 where c': "Map_call H (with_replace c) m = Inr (r', m1)"
      and agree: "ret_agree r r'" and sim: "size_l lm1 = size_m m1" "data_l lm1 = data_m m1"
      by (auto elim!: rel_sum.cases)
    show ?thesis
      using Cons.IH [OF sim] Inr p c' agree
      by (auto elim!: rel_sum.cases split: sum.splits)
  qed
qed

lemma LegacyMap_Find_eq:
  "size_l lm = size_m m \<Longrightarrow> data_l lm = data_m m \<Longrightarrow> LegacyMap_Find H k lm = Map_Find H k m"
  by (simp add: LegacyMap_Find_def Map_Find_def LegacyMap_bucket_eq legacy_chain_find_eq split: sum.splits)

lemma LegacyMap_Contains_eq:
  "size_l lm = size_m m \<Longrightarrow> data_l lm = data_m m \<Longrightarrow> LegacyMap_Contains H k lm = Map_Contains H k m"
  by (simp add: LegacyMap_Contains_def Map_Contains_def LegacyMap_bucket_eq legacy_chain_contains_eq
        split: sum.splits)

lemma LegacyMap_Insert_overwrites:
  assumes "LegacyMap_Insert H k k v lm = Inr (u, lm')"
  shows "LegacyMap_Find H k lm' = Inr (Some v)"
  using assms
  by (auto simp: LegacyMap_Insert_def LegacyMap_Find_def LegacyMap_bucket_def Let_def
        legacy_chain_insert_find split: sum.splits if_splits)

lemma LegacyMap_Insert_sim:
  assumes "size_l lm = size_m m" and "data_l lm = data_m m"
  shows "rel_sum (=) (\<lambda>(u, lm') (b, m'). size_l lm' = size_m m' \<and> data_l lm' = data_m m')
           (LegacyMap_Insert H node_key k v lm) (Map_Insert H node_key k v True m)"
  using assms
  by (auto simp: LegacyMap_Insert_def Map_Insert_def LegacyMap_bucket_eq [OF assms]
        legacy_chain_insert_eq case_prod_beta split: sum.splits)

lemma LegacyMap_run_agrees:
  "rel_sum (=)
     (\<lambda>(rs, lm) (rs', m). list_all2 ret_agree rs rs'
        \<and> (\<forall>k. LegacyMap_Find H k lm = Map_Find H k m
               \<and> LegacyMap_Contains H k lm = Map_Contains H k m))
     (LegacyMap_run H cs (LegacyMap_init sz)) (Map_run H (map with_replace cs) (Map_init sz))"
proof -
  have "rel_sum (=) (\<lambda>(rs, lm') (rs', m'). list_all2 ret_agree rs rs' \<and> size_l lm' = size_m m' \<and> data_l lm' = data_m m')
           (LegacyMap_run H cs (LegacyMap_init sz)) (Map_run H (map with_replace cs) (Map_init sz))"
    by (rule LegacyMap_run_sim) (simp_all add: LegacyMap_init_def Map_init_def)
  then show ?thesis
    by (rule rel_sum.cases) (auto simp: LegacyMap_Find_eq LegacyMap_Contains_eq)
qed

subsection \<open>Interleaved calls that run one after the other\<close>

text \<open>
  When the three calls of the example bucket run one after the other (\<open>Insert("C", 3)\<close>
  to its end, then \<open>Erase("A")\<close>, then \<open>Insert("C", 4)\<close>), the threads return what the
  sequential functions return on the same chain, and the chain and the counter are the
  same.
\<close>

lemma run_schedule_serial:
  "map_option b_threads (run_schedule [0, 0, 0, 0, 0, 1, 2, 2, 2] race_start)
     = Some [Returned True, Returned True, Returned False]
   \<and> map_option bucket_chain (run_schedule [0, 0, 0, 0, 0, 1, 2, 2, 2] race_start)
     = Some [\<lparr>key = ''B'', val = 2\<rparr>, \<lparr>key = ''C'', val = 3\<rparr>]
   \<and> map_option b_count (run_schedule [0, 0, 0, 0, 0, 1, 2, 2, 2] race_start) = Some 2
   \<and> map_option b_held (run_schedule [0, 0, 0, 0, 0, 1, 2, 2, 2] race_start) = Some []
   \<and> Map_run len_hash [Insert_call ''C'' 3 False, Erase_call ''A'', Insert_call ''C'' 4 False]
        race_table
     = Inr ([Bool_ret True, Bool_ret True, Bool_ret False],
            \<lparr>size_m = 1, count_m = 2,
             data_m = [[\<lparr>key = ''B'', val = 2\<rparr>, \<lparr>key = ''C'', val = 3\<rparr>]]\<rparr>)"
  by code_simp

text \<open>
  The same for a walk of \<open>Erase\<close> that unlinks a node behind the head, an \<open>Insert\<close>
  that overwrites, an \<open>Erase\<close> of an absent key and an \<open>Insert\<close> at the end of the chain.
\<close>

lemma run_schedule_serial_walks:
  "map_option b_threads (run_schedule [0, 0, 0, 1, 2, 2, 3, 3, 3] serial_start)
     = Some [Returned True, Returned True, Returned False, Returned True]
   \<and> map_option bucket_chain (run_schedule [0, 0, 0, 1, 2, 2, 3, 3, 3] serial_start)
     = Some [\<lparr>key = ''A'', val = 9\<rparr>, \<lparr>key = ''D'', val = 5\<rparr>]
   \<and> map_option b_count (run_schedule [0, 0, 0, 1, 2, 2, 3, 3, 3] serial_start) = Some 2
   \<and> map_option b_held (run_schedule [0, 0, 0, 1, 2, 2, 3, 3, 3] serial_start) = Some []
   \<and> Map_run len_hash
        [Erase_call ''B'', Insert_call ''A'' 9 True, Erase_call ''Z'', Insert_call ''D'' 5 False]
        race_table
     = Inr ([Bool_ret True, Bool_ret True, Bool_ret False, Bool_ret True],
            \<lparr>size_m = 1, count_m = 2,
             data_m = [[\<lparr>key = ''A'', val = 9\<rparr>, \<lparr>key = ''D'', val = 5\<rparr>]]\<rparr>)"
  by code_simp

text \<open>A thread that needs a mutex another thread holds has no step.\<close>

lemma run_schedule_blocked:
  "map_option b_held (run_schedule [0] race_start) = Some [(Bucket_m, 0)]
   \<and> run_schedule [0, 1] race_start = None
   \<and> run_schedule [0, 2] race_start = None"
  by code_simp

section \<open>The claims\<close>

text \<open>
  C1, at the failing input. On a \<open>Map<std::string, std::string>\<close> of one bucket, with
  \<open>std::string s = "abc", t = "abc"\<close>, the calls \<open>Insert(s, std::move(s))\<close> and
  \<open>Insert(t, std::move(t))\<close> each build the node \<open>("abc", "abc")\<close>, which empties the
  object the parameter \<open>key\<close> refers to, and then hash and compare the empty key: both
  return true and the chain holds two nodes \<open>"abc"\<close>. \<open>Erase("abc")\<close> returns true and
  unlinks the first of them, and \<open>Contains("abc")\<close> is still true, although the most
  recent operation on \<open>"abc"\<close> is an \<open>Erase\<close>. With two buckets and a hash that sends
  \<open>""\<close> and \<open>"abc"\<close> to different buckets, \<open>Contains("abc")\<close> is false right after
  \<open>Insert(s, std::move(s))\<close> has returned true.
\<close>

theorem Map_Insert_moved_key_breaks_Contains:
  "Map_Insert len_hash ''abc'' moved_from ''abc'' False (Map_init 1)
     = Inr (True, \<lparr>size_m = 1, count_m = 1, data_m = [[\<lparr>key = ''abc'', val = ''abc''\<rparr>]]\<rparr>)
   \<and> Map_Insert len_hash ''abc'' moved_from ''abc'' False
        \<lparr>size_m = 1, count_m = 1, data_m = [[\<lparr>key = ''abc'', val = ''abc''\<rparr>]]\<rparr>
     = Inr (True, \<lparr>size_m = 1, count_m = 2,
                  data_m = [[\<lparr>key = ''abc'', val = ''abc''\<rparr>, \<lparr>key = ''abc'', val = ''abc''\<rparr>]]\<rparr>)
   \<and> Map_Erase len_hash ''abc''
        \<lparr>size_m = 1, count_m = 2,
         data_m = [[\<lparr>key = ''abc'', val = ''abc''\<rparr>, \<lparr>key = ''abc'', val = ''abc''\<rparr>]]\<rparr>
     = Inr (True, \<lparr>size_m = 1, count_m = 1, data_m = [[\<lparr>key = ''abc'', val = ''abc''\<rparr>]]\<rparr>)
   \<and> Map_Contains len_hash ''abc''
        \<lparr>size_m = 1, count_m = 1, data_m = [[\<lparr>key = ''abc'', val = ''abc''\<rparr>]]\<rparr>
     = Inr True
   \<and> Map_Insert len_hash ''abc'' moved_from ''abc'' False (Map_init 2)
     = Inr (True, \<lparr>size_m = 2, count_m = 1, data_m = [[\<lparr>key = ''abc'', val = ''abc''\<rparr>], []]\<rparr>)
   \<and> Map_Contains len_hash ''abc''
        \<lparr>size_m = 2, count_m = 1, data_m = [[\<lparr>key = ''abc'', val = ''abc''\<rparr>], []]\<rparr>
     = Inr False"
  by code_simp

text \<open>
  C2, at the failing schedule. The bucket holds \<open>"A"\<close> and \<open>"B"\<close>. Thread 0 runs
  \<open>Insert("C", 3)\<close> up to the end of its walk: it stands on \<open>"B"\<close>, holds the mutex of
  that node and has released \<open>bucket.m\<close>. Thread 1 runs \<open>Erase("A")\<close> under \<open>bucket.m\<close>,
  after which \<open>"B"\<close> is the head node. Thread 2 runs \<open>Insert("C", 4)\<close>: a head node is
  guarded by \<open>bucket.m\<close>, which is free, so the call finds the end of the chain at
  \<open>"B"\<close>, links its node there and returns true. Thread 0 then links its own node at
  \<open>"B"\<close>, which destroys the node of thread 2, and returns true. Two inserts of one key
  with \<open>replace = false\<close> have succeeded with no erase of that key, and \<open>count_\<close> is 3
  for a chain of two nodes. Run one after the other in any of their six orders, the three
  calls give false for the second \<open>Insert\<close> of \<open>"C"\<close> and a \<open>Size()\<close> of 2.
\<close>

theorem Insert_Erase_schedule_not_sequential:
  "map_option b_threads (run_schedule [0, 0, 0, 0, 1, 2, 2, 2, 0] race_start)
     = Some [Returned True, Returned True, Returned True]
   \<and> map_option bucket_chain (run_schedule [0, 0, 0, 0, 1, 2, 2, 2, 0] race_start)
     = Some [\<lparr>key = ''B'', val = 2\<rparr>, \<lparr>key = ''C'', val = 3\<rparr>]
   \<and> map_option b_count (run_schedule [0, 0, 0, 0, 1, 2, 2, 2, 0] race_start) = Some 3
   \<and> map_option b_held (run_schedule [0, 0, 0, 0, 1, 2, 2, 2, 0] race_start) = Some []
   \<and> map_option b_threads (run_schedule [0, 0, 0, 0] race_start)
     = Some [Insert_link ''C'' 3 False 2 1 (Node_m 1), Erase_start ''A'',
             Insert_start ''C'' 4 False 3]
   \<and> map_option b_held (run_schedule [0, 0, 0, 0] race_start) = Some [(Node_m 1, 0)]
   \<and> map_sum id (map_prod id Map_Size)
        (Map_run len_hash [Insert_call ''C'' 3 False, Insert_call ''C'' 4 False, Erase_call ''A'']
           race_table)
     = Inr ([Bool_ret True, Bool_ret False, Bool_ret True], 2)
   \<and> map_sum id (map_prod id Map_Size)
        (Map_run len_hash [Insert_call ''C'' 4 False, Insert_call ''C'' 3 False, Erase_call ''A'']
           race_table)
     = Inr ([Bool_ret True, Bool_ret False, Bool_ret True], 2)
   \<and> map_sum id (map_prod id Map_Size)
        (Map_run len_hash [Insert_call ''C'' 3 False, Erase_call ''A'', Insert_call ''C'' 4 False]
           race_table)
     = Inr ([Bool_ret True, Bool_ret True, Bool_ret False], 2)
   \<and> map_sum id (map_prod id Map_Size)
        (Map_run len_hash [Insert_call ''C'' 4 False, Erase_call ''A'', Insert_call ''C'' 3 False]
           race_table)
     = Inr ([Bool_ret True, Bool_ret True, Bool_ret False], 2)
   \<and> map_sum id (map_prod id Map_Size)
        (Map_run len_hash [Erase_call ''A'', Insert_call ''C'' 3 False, Insert_call ''C'' 4 False]
           race_table)
     = Inr ([Bool_ret True, Bool_ret True, Bool_ret False], 2)
   \<and> map_sum id (map_prod id Map_Size)
        (Map_run len_hash [Erase_call ''A'', Insert_call ''C'' 4 False, Insert_call ''C'' 3 False]
           race_table)
     = Inr ([Bool_ret True, Bool_ret True, Bool_ret False], 2)"
  by code_simp

text \<open>
  C3, at the failing input. A \<open>Set<std::string>\<close> of one bucket receives
  \<open>Insert(std::string("abc"))\<close> twice. Each call moves the argument into the new node
  and then hashes and compares the emptied parameter, so each call links a node
  \<open>"abc"\<close> and increments the counter: \<open>Size()\<close> is 2 while the Set holds one
  distinct value.
\<close>

theorem Set_Size_counts_moved_duplicates:
  "Set_Insert len_hash ''abc'' moved_from (Set_init 1)
     = Inr ((), \<lparr>size_s = 1, count_s = 1, data_s = [[''abc'']]\<rparr>)
   \<and> Set_Insert len_hash ''abc'' moved_from \<lparr>size_s = 1, count_s = 1, data_s = [[''abc'']]\<rparr>
     = Inr ((), \<lparr>size_s = 1, count_s = 2, data_s = [[''abc'', ''abc'']]\<rparr>)
   \<and> Set_Size \<lparr>size_s = 1, count_s = 2, data_s = [[''abc'', ''abc'']]\<rparr> = 2
   \<and> Set_values \<lparr>size_s = 1, count_s = 2, data_s = [[''abc'', ''abc'']]\<rparr> = {''abc''}
   \<and> card (Set_values \<lparr>size_s = 1, count_s = 2, data_s = [[''abc'', ''abc'']]\<rparr>) = 1"
proof -
  have "Set_Insert len_hash ''abc'' moved_from (Set_init 1)
     = Inr ((), \<lparr>size_s = 1, count_s = 1, data_s = [[''abc'']]\<rparr>)"
    by code_simp
  moreover have "Set_Insert len_hash ''abc'' moved_from
       \<lparr>size_s = 1, count_s = 1, data_s = [[''abc'']]\<rparr>
     = Inr ((), \<lparr>size_s = 1, count_s = 2, data_s = [[''abc'', ''abc'']]\<rparr>)"
    by code_simp
  ultimately show ?thesis by (simp add: Set_Size_def Set_values_def)
qed




text \<open>
  C5, at the failing input. A \<open>Set<std::string>\<close> of one bucket that received
  \<open>Insert(std::string("abc"))\<close> twice holds two nodes \<open>"abc"\<close>. \<open>Erase("abc")\<close> returns
  true and unlinks the first one; \<open>Contains("abc")\<close> is still true, and the second
  \<open>Erase("abc")\<close> returns true as well.
\<close>

theorem Set_Erase_twice_true:
  "Set_Insert len_hash ''abc'' moved_from (Set_init 1)
     = Inr ((), \<lparr>size_s = 1, count_s = 1, data_s = [[''abc'']]\<rparr>)
   \<and> Set_Insert len_hash ''abc'' moved_from \<lparr>size_s = 1, count_s = 1, data_s = [[''abc'']]\<rparr>
     = Inr ((), \<lparr>size_s = 1, count_s = 2, data_s = [[''abc'', ''abc'']]\<rparr>)
   \<and> Set_Erase len_hash ''abc'' \<lparr>size_s = 1, count_s = 2, data_s = [[''abc'', ''abc'']]\<rparr>
     = Inr (True, \<lparr>size_s = 1, count_s = 1, data_s = [[''abc'']]\<rparr>)
   \<and> Set_Contains len_hash ''abc'' \<lparr>size_s = 1, count_s = 1, data_s = [[''abc'']]\<rparr>
     = Inr True
   \<and> Set_Erase len_hash ''abc'' \<lparr>size_s = 1, count_s = 1, data_s = [[''abc'']]\<rparr>
     = Inr (True, \<lparr>size_s = 1, count_s = 0, data_s = [[]]\<rparr>)"
  by code_simp

text \<open>
  C6, at the failing input. A \<open>Set<std::string>\<close> of one bucket receives
  \<open>Insert(std::string("abc"))\<close> twice. The second call compares the node \<open>"abc"\<close>
  with the emptied parameter, finds no match and links a second node \<open>"abc"\<close> in the
  same chain.
\<close>

theorem Set_Insert_moved_from_duplicates:
  "Set_Insert len_hash ''abc'' moved_from (Set_init 1)
     = Inr ((), \<lparr>size_s = 1, count_s = 1, data_s = [[''abc'']]\<rparr>)
   \<and> Set_Insert len_hash ''abc'' moved_from \<lparr>size_s = 1, count_s = 1, data_s = [[''abc'']]\<rparr>
     = Inr ((), \<lparr>size_s = 1, count_s = 2, data_s = [[''abc'', ''abc'']]\<rparr>)
   \<and> \<not> distinct (data_s \<lparr>size_s = 1, count_s = 2, data_s = [[''abc'', ''abc'']]\<rparr> ! 0)"
proof -
  have "Set_Insert len_hash ''abc'' moved_from (Set_init 1)
     = Inr ((), \<lparr>size_s = 1, count_s = 1, data_s = [[''abc'']]\<rparr>)"
    by code_simp
  moreover have "Set_Insert len_hash ''abc'' moved_from
       \<lparr>size_s = 1, count_s = 1, data_s = [[''abc'']]\<rparr>
     = Inr ((), \<lparr>size_s = 1, count_s = 2, data_s = [[''abc'', ''abc'']]\<rparr>)"
    by code_simp
  ultimately show ?thesis by simp
qed




text \<open>
  C9, as amended. On a Map of two buckets, whatever the hash, the scenario returns:
  true for the two first inserts, 5 for \<open>Find("aboba")\<close>, true for the inserts of
  \<open>"zeleboba"\<close> and \<open>"dassyr"\<close>, true and then false for the two \<open>Erase("aboba")\<close>,
  nothing for \<open>Find("aboba")\<close>, 20 for \<open>Find("dassyr")\<close> and 10, the only value ever
  inserted for that key, for \<open>Find("zeleboba")\<close>.
\<close>

theorem Map_scenario:
  "map_sum id fst (Map_run H scenario (Map_init 2)) =
     Inr [Bool_ret True, Bool_ret True, Opt_ret (Some 5), Bool_ret True, Bool_ret True,
          Bool_ret True, Bool_ret False, Opt_ret None, Opt_ret (Some 20), Opt_ret (Some 10)]"
proof -
  have nz: "(2 :: u64) \<noteq> 0" by simp
  obtain m' where "Map_run H scenario (Map_init 2) = Inr (fst (spec_run scenario Map.empty), m')"
    using Map_run_fresh [OF nz, of H scenario] by blast
  moreover have "fst (spec_run scenario Map.empty) =
     [Bool_ret True, Bool_ret True, Opt_ret (Some 5), Bool_ret True, Bool_ret True,
          Bool_ret True, Bool_ret False, Opt_ret None, Opt_ret (Some 20), Opt_ret (Some 10)]"
    by (simp add: scenario_def)
  ultimately show ?thesis by simp
qed

theorem Map_scenario_zeleboba_counterexample:
  "map_sum id (last \<circ> fst) (Map_run len_hash scenario (Map_init 2)) = Inr (Opt_ret (Some 10))
   \<and> map_sum id (last \<circ> fst) (Map_run len_hash scenario (Map_init 2)) \<noteq> Inr (Opt_ret (Some 5))"
proof -
  have "map_sum id (last \<circ> fst) (Map_run len_hash scenario (Map_init 2)) = Inr (Opt_ret (Some 10))"
    by code_simp
  then show ?thesis by simp
qed

text \<open>
  C10, at the failing input. On a \<open>Map<std::string, std::string>\<close> of \<open>map.h\<close> with one
  bucket, after \<open>Insert("abc", std::string("old"))\<close> and with \<open>std::string s = "abc"\<close>,
  the call \<open>Insert(s, std::move(s))\<close> builds the node \<open>("abc", "abc")\<close>, compares the
  node \<open>"abc"\<close> of the chain with the emptied key, finds no match and links the new node
  behind it: the value of the present key is not overwritten, and \<open>Find("abc")\<close> still
  returns \<open>"old"\<close>.
\<close>

theorem LegacyMap_Insert_moved_key_keeps_value:
  "LegacyMap_Insert len_hash ''abc'' ''abc'' ''old'' (LegacyMap_init 1)
     = Inr ((), \<lparr>size_l = 1, data_l = [[\<lparr>key = ''abc'', val = ''old''\<rparr>]]\<rparr>)
   \<and> LegacyMap_Insert len_hash ''abc'' moved_from ''abc''
        \<lparr>size_l = 1, data_l = [[\<lparr>key = ''abc'', val = ''old''\<rparr>]]\<rparr>
     = Inr ((), \<lparr>size_l = 1,
               data_l = [[\<lparr>key = ''abc'', val = ''old''\<rparr>, \<lparr>key = ''abc'', val = ''abc''\<rparr>]]\<rparr>)
   \<and> LegacyMap_Find len_hash ''abc''
        \<lparr>size_l = 1,
         data_l = [[\<lparr>key = ''abc'', val = ''old''\<rparr>, \<lparr>key = ''abc'', val = ''abc''\<rparr>]]\<rparr>
     = Inr (Some ''old'')"
  by code_simp

end
